theory Spec2Isabelle
  imports
    Main
    "HOL-Library.Word"
    "HOL-Library.Char_ord"
    "HOL-Library.List_Lexorder"
begin

unbundle bit_operations_syntax


section \<open>Bencoded values (include/bencode_parser.hpp)\<close>

text \<open>
  \<open>struct BencodedValue\<close> holds a \<open>std::variant\<close> of \<open>int64_t\<close>, \<open>std::string\<close>,
  \<open>BencodedList\<close> and \<open>BencodedDict\<close>. A \<open>std::map<std::string, BencodedValue>\<close> is
  modelled by its sequence of entries in iteration order; \<open>dict_ok\<close> is the invariant
  of the container (keys strictly ascending in the byte order of \<open>std::string\<close>).
\<close>

datatype BencodedValue =
  BInt "64 word"
  | BString string
  | BList "BencodedValue list"
  | BDict "(string \<times> BencodedValue) list"

type_synonym BencodedDict = "(string \<times> BencodedValue) list"

text \<open>\<open>m[key] = value\<close> on a \<open>std::map\<close>: insert at the key's place, or overwrite.\<close>

fun map_assign :: "'k::linorder \<Rightarrow> 'v \<Rightarrow> ('k \<times> 'v) list \<Rightarrow> ('k \<times> 'v) list" where
  "map_assign k v [] = [(k, v)]"
| "map_assign k v ((k', v') # m) =
     (if k < k' then (k, v) # (k', v') # m
      else if k = k' then (k, v) # m
      else (k', v') # map_assign k v m)"

text \<open>\<open>m.insert({key, value})\<close>: insert at the key's place unless the key is present.\<close>

fun map_insert :: "'k::linorder \<Rightarrow> 'v \<Rightarrow> ('k \<times> 'v) list \<Rightarrow> ('k \<times> 'v) list" where
  "map_insert k v [] = [(k, v)]"
| "map_insert k v ((k', v') # m) =
     (if k < k' then (k, v) # (k', v') # m
      else if k = k' then (k', v') # m
      else (k', v') # map_insert k v m)"

text \<open>The range constructor \<open>std::map(first, last)\<close>: insert each entry in turn.\<close>

definition map_from_range :: "('k::linorder \<times> 'v) list \<Rightarrow> ('k \<times> 'v) list" where
  "map_from_range entries = fold (\<lambda>(k, v) m. map_insert k v m) entries []"

section \<open>Decimal numerals of the C++ library\<close>

definition digit_char :: "nat \<Rightarrow> char" where
  "digit_char d = char_of (48 + d)"

definition isdigit :: "char \<Rightarrow> bool" where
  "isdigit c \<longleftrightarrow> 48 \<le> (of_char c :: nat) \<and> (of_char c :: nat) \<le> 57"

definition isspace :: "char \<Rightarrow> bool" where
  "isspace c \<longleftrightarrow> (of_char c :: nat) = 32 \<or> (9 \<le> (of_char c :: nat) \<and> (of_char c :: nat) \<le> 13)"

definition digit_value :: "char \<Rightarrow> nat" where
  "digit_value c = of_char c - 48"

text \<open>\<open>std::to_string\<close> on an unsigned and on a signed integer.\<close>

function to_string_nat :: "nat \<Rightarrow> string" where
  "to_string_nat n =
     (if n < 10 then [digit_char n] else to_string_nat (n div 10) @ [digit_char (n mod 10)])"
  by pat_completeness auto
termination
  by (relation "measure id") auto

declare to_string_nat.simps [simp del]

definition to_string_int :: "int \<Rightarrow> string" where
  "to_string_int i = (if i < 0 then CHR ''-'' # to_string_nat (nat (- i)) else to_string_nat (nat i))"

definition digits_value :: "string \<Rightarrow> nat" where
  "digits_value ds = foldl (\<lambda>acc c. 10 * acc + digit_value c) 0 ds"

datatype parse_error =
  UnexpectedEnd
  | InvalidIntegerFormat
  | InvalidIntegerValue
  | InvalidStringFormat
  | StringLengthExceedsInput
  | InvalidListFormat
  | InvalidDictFormat
  | InvalidBencodedFormat
  | StollInvalidArgument
  | StollOutOfRange

text \<open>
  \<open>std::stoll(str)\<close> (base 10): skips leading white space, takes an optional sign
  and the longest run of digits, and ignores what follows. No digit:
  \<open>std::invalid_argument\<close>; a value outside \<open>int64_t\<close>: \<open>std::out_of_range\<close>.
\<close>

definition stoll :: "string \<Rightarrow> parse_error + int" where
  "stoll str =
     (let s1 = dropWhile isspace str;
          negative = (s1 \<noteq> [] \<and> hd s1 = CHR ''-'');
          s2 = (if s1 \<noteq> [] \<and> (hd s1 = CHR ''-'' \<or> hd s1 = CHR ''+'') then tl s1 else s1);
          ds = takeWhile isdigit s2
      in if ds = [] then Inl StollInvalidArgument
         else let v = (if negative then - int (digits_value ds) else int (digits_value ds))
              in if v < - 9223372036854775808 \<or> 9223372036854775807 < v
                 then Inl StollOutOfRange else Inr v)"

section \<open>Encoder (src/bencode_encoder.cpp)\<close>

definition encodeInt :: "64 word \<Rightarrow> string" where
  "encodeInt v = ''i'' @ to_string_int (sint v) @ ''e''"

definition encodeString :: "string \<Rightarrow> string" where
  "encodeString s = to_string_nat (length s) @ '':'' @ s"

function encode :: "BencodedValue \<Rightarrow> string" where
  "encode (BInt v) = encodeInt v"
| "encode (BString s) = encodeString s"
| "encode (BList l) = ''l'' @ concat (map encode l) @ ''e''"
| "encode (BDict dict) =
     ''d'' @ concat (map (\<lambda>(k, v). encodeString k @ encode v) (map_from_range dict)) @ ''e''"
  by pat_completeness auto
termination
proof (relation "measure size")
  show "wf (measure size)" by simp
next
  fix l :: "BencodedValue list" and x
  assume "x \<in> set l"
  then show "(x, BList l) \<in> measure size"
    by (induction l) auto
next
  fix dict :: BencodedDict and z k v
  assume z: "z \<in> set (map_from_range dict)" and kv: "(k, v) = z"
  have ins: "set (map_insert a b m) \<subseteq> insert (a, b) (set m)" for a :: string and b :: BencodedValue and m
    by (induction m) (auto split: if_splits)
  have "set (fold (\<lambda>(k, v) m. map_insert k v m) d m) \<subseteq> set d \<union> set m" for d m :: BencodedDict
  proof (induction d arbitrary: m)
    case Nil
    then show ?case by simp
  next
    case (Cons a d)
    obtain a1 a2 where a: "a = (a1, a2)" by (cases a)
    show ?case using Cons[of "map_insert a1 a2 m"] ins[of a1 a2 m] by (auto simp: a)
  qed
  from this[of dict "[]"] z kv have "(k, v) \<in> set dict"
    by (auto simp: map_from_range_def)
  then show "(v, BDict dict) \<in> measure size"
    by (induction dict) auto
qed

section \<open>Parser (src/bencode_parser.cpp)\<close>

text \<open>
  A parse returns the value and the new position, or raises; \<open>OutOfFuel\<close> stands for
  a parse that does not return (the recursion of the source can be unbounded, see
  \<open>parseString\<close>).
\<close>

datatype 'a presult = Ok 'a nat | Err parse_error | OutOfFuel

text \<open>\<open>data.find(c, pos)\<close>: the first index \<open>\<ge> pos\<close> holding \<open>c\<close>, or \<open>npos\<close>.\<close>

definition find_char :: "char \<Rightarrow> string \<Rightarrow> nat \<Rightarrow> nat option" where
  "find_char c data pos =
     (if c \<in> set (drop pos data)
      then Some (pos + length (takeWhile (\<lambda>x. x \<noteq> c) (drop pos data)))
      else None)"

text \<open>
  \<open>data.substr(pos, n)\<close> for \<open>pos \<le> data.size()\<close>: the characters from \<open>pos\<close> up
  to \<open>pos + min(n, size - pos)\<close>. The count is a \<open>size_t\<close>, kept as an integer here.
\<close>

definition substr :: "string \<Rightarrow> nat \<Rightarrow> int \<Rightarrow> string" where
  "substr data pos n = take (nat (min n (int (length data) - int pos))) (drop pos data)"

definition parseInt :: "string \<Rightarrow> nat \<Rightarrow> (64 word) presult" where
  "parseInt data pos0 =
     (let pos = pos0 + 1 in
      case find_char CHR ''e'' data pos of
        None \<Rightarrow> Err InvalidIntegerFormat
      | Some endPos \<Rightarrow>
          (case stoll (substr data pos (int endPos - int pos)) of
             Inl e \<Rightarrow> Err InvalidIntegerValue
           | Inr v \<Rightarrow> Ok (word_of_int v) (endPos + 1)))"

text \<open>
  \<open>parseString\<close>. \<open>length\<close> is an \<open>int64_t\<close>; in \<open>pos + length\<close> it is converted to
  \<open>size_t\<close> (64 bits) and the sum wraps, so a negative length moves the position
  backwards. \<open>substr(pos, length)\<close> converts the length likewise. The exceptions of
  \<open>std::stoll\<close> are not caught here.
\<close>

definition parseString :: "string \<Rightarrow> nat \<Rightarrow> string presult" where
  "parseString data pos =
     (case find_char CHR '':'' data pos of
        None \<Rightarrow> Err InvalidStringFormat
      | Some colonPos \<Rightarrow>
          (case stoll (substr data pos (int colonPos - int pos)) of
             Inl e \<Rightarrow> Err e
           | Inr len \<Rightarrow>
               let pos1 = colonPos + 1;
                   ulen = len mod 18446744073709551616;
                   new_pos = (int pos1 + ulen) mod 18446744073709551616
               in if new_pos > int (length data) then Err StringLengthExceedsInput
                  else Ok (substr data pos1 ulen) (nat new_pos)))"

fun parseValue :: "nat \<Rightarrow> string \<Rightarrow> nat \<Rightarrow> BencodedValue presult"
  and parseList :: "nat \<Rightarrow> string \<Rightarrow> nat \<Rightarrow> BencodedValue list \<Rightarrow> (BencodedValue list) presult"
  and parseDict :: "nat \<Rightarrow> string \<Rightarrow> nat \<Rightarrow> BencodedDict \<Rightarrow> BencodedDict presult"
where
  "parseValue 0 data pos = OutOfFuel"
| "parseValue (Suc fuel) data pos =
     (if pos \<ge> length data then Err UnexpectedEnd
      else if data ! pos = CHR ''i'' then
        (case parseInt data pos of
           Ok v p \<Rightarrow> Ok (BInt v) p | Err e \<Rightarrow> Err e | OutOfFuel \<Rightarrow> OutOfFuel)
      else if data ! pos = CHR ''l'' then
        (case parseList fuel data (pos + 1) [] of
           Ok l p \<Rightarrow> Ok (BList l) p | Err e \<Rightarrow> Err e | OutOfFuel \<Rightarrow> OutOfFuel)
      else if data ! pos = CHR ''d'' then
        (case parseDict fuel data (pos + 1) [] of
           Ok d p \<Rightarrow> Ok (BDict d) p | Err e \<Rightarrow> Err e | OutOfFuel \<Rightarrow> OutOfFuel)
      else if isdigit (data ! pos) then
        (case parseString data pos of
           Ok s p \<Rightarrow> Ok (BString s) p | Err e \<Rightarrow> Err e | OutOfFuel \<Rightarrow> OutOfFuel)
      else Err InvalidBencodedFormat)"
| "parseList 0 data pos result = OutOfFuel"
| "parseList (Suc fuel) data pos result =
     (if pos < length data \<and> data ! pos \<noteq> CHR ''e'' then
        (case parseValue fuel data pos of
           Ok v p \<Rightarrow> parseList fuel data p (result @ [v])
         | Err e \<Rightarrow> Err e
         | OutOfFuel \<Rightarrow> OutOfFuel)
      else if pos \<ge> length data \<or> data ! pos \<noteq> CHR ''e'' then Err InvalidListFormat
      else Ok result (pos + 1))"
| "parseDict 0 data pos result = OutOfFuel"
| "parseDict (Suc fuel) data pos result =
     (if pos < length data \<and> data ! pos \<noteq> CHR ''e'' then
        (case parseString data pos of
           Ok key p \<Rightarrow>
             (case parseValue fuel data p of
                Ok v p' \<Rightarrow> parseDict fuel data p' (map_assign key v result)
              | Err e \<Rightarrow> Err e
              | OutOfFuel \<Rightarrow> OutOfFuel)
         | Err e \<Rightarrow> Err e
         | OutOfFuel \<Rightarrow> OutOfFuel)
      else if pos \<ge> length data \<or> data ! pos \<noteq> CHR ''e'' then Err InvalidDictFormat
      else Ok result (pos + 1))"

text \<open>\<open>BencodeParser::parse\<close>: one value from position 0; trailing bytes are left.\<close>

definition parse :: "nat \<Rightarrow> string \<Rightarrow> BencodedValue presult" where
  "parse fuel data = parseValue fuel data 0"

section \<open>Well-formed inputs\<close>

text \<open>
  The text of a syntax tree, following the grammar of the format: \<open>i<decimal>e\<close>
  with the decimal of an \<open>int64\<close> (a sign only when negative, no leading zeros),
  \<open><len>:<bytes>\<close> with the decimal length, \<open>l<items>e\<close>, and \<open>d(<key><value>)*e\<close>
  with the entries in the order listed (any order, repeated keys allowed). A
  well-formed input is \<open>bencoding t\<close> for a tree \<open>t\<close>.
\<close>

fun bencoding :: "BencodedValue \<Rightarrow> string" where
  "bencoding (BInt v) = encodeInt v"
| "bencoding (BString s) = encodeString s"
| "bencoding (BList l) = ''l'' @ concat (map bencoding l) @ ''e''"
| "bencoding (BDict entries) =
     ''d'' @ concat (map (\<lambda>(k, v). encodeString k @ bencoding v) entries) @ ''e''"

text \<open>Dictionaries at every nesting level have distinct keys in ascending byte order.\<close>

fun sorted_keys :: "BencodedValue \<Rightarrow> bool" where
  "sorted_keys (BInt v) = True"
| "sorted_keys (BString s) = True"
| "sorted_keys (BList l) = (\<forall>x \<in> set l. sorted_keys x)"
| "sorted_keys (BDict entries) =
     (sorted_wrt (<) (map fst entries) \<and> (\<forall>(k, v) \<in> set entries. sorted_keys v))"

text \<open>
  The value a syntax tree denotes under the parser's rule for dictionaries: entries
  are stored with \<open>result[key] = value\<close> in input order.
\<close>

fun stored :: "BencodedValue \<Rightarrow> BencodedValue" where
  "stored (BInt v) = BInt v"
| "stored (BString s) = BString s"
| "stored (BList l) = BList (map stored l)"
| "stored (BDict entries) =
     BDict (fold (\<lambda>(k, v) m. map_assign k (stored v) m) entries [])"

text \<open>
  Decoding fails: with enough fuel the parse raises \<open>e\<close>, and with no amount of fuel
  does it return a value.
\<close>

definition rejects :: "string \<Rightarrow> parse_error \<Rightarrow> bool" where
  "rejects data e \<longleftrightarrow>
     (\<forall>fuel. 3 \<le> fuel \<longrightarrow> parse fuel data = Err e)
     \<and> (\<forall>fuel v p. parse fuel data \<noteq> Ok v p)"

definition example_value :: BencodedValue where
  "example_value =
     BDict [(''a'', BInt (- 2)), (''b'', BList [BInt 3, BString ''xyz'']), (''c'', BDict [])]"

definition example_repeated :: BencodedValue where
  "example_repeated = BDict [(''b'', BInt 1), (''a'', BInt 2), (''b'', BList [BInt 3])]"

section \<open>Routing table (include/dht_bootstrap.hpp, src/dht_bootstrap.cpp)\<close>

text \<open>
  A \<open>NodeID\<close> is \<open>std::array<uint8_t, 20>\<close>: a list of bytes, byte 0 first. The
  array type fixes the length; the model states \<open>length x = NODE_ID_SIZE\<close> where a
  property depends on it. The order on \<open>NodeID\<close> is the lexicographic order on
  unsigned bytes (\<open>std::array::operator<\<close>).
\<close>

type_synonym NodeID = "8 word list"

definition NODE_ID_SIZE :: nat where
  "NODE_ID_SIZE = 20"

definition K :: nat where
  "K = 8"

text \<open>\<open>struct Node\<close>; its \<open>operator==\<close> is componentwise, as equality of records is.\<close>

record Node =
  node_id :: NodeID
  ip :: string
  port :: "16 word"

type_synonym Bucket = "Node list"

datatype dht_error =
  ArrayReadOutOfBounds
  | MissingKey
  | NotAString
  | NotADict
  | InvalidNodeIdLength
  | BadAddressString

text \<open>\<open>DHTBootstrap::xor_distance\<close>: \<open>result[i] = a[i] ^ b[i]\<close> for \<open>i < NODE_ID_SIZE\<close>.\<close>

definition xor_distance :: "NodeID \<Rightarrow> NodeID \<Rightarrow> NodeID" where
  "xor_distance a b = map (\<lambda>i. (a ! i) XOR (b ! i)) [0..<NODE_ID_SIZE]"

text \<open>
  The loop condition of \<open>add_to_routing_table\<close>:
  \<open>distance[bucket_index / 8] & (1 << (bucket_index % 8))\<close>.
\<close>

definition distance_bit :: "NodeID \<Rightarrow> nat \<Rightarrow> bool" where
  "distance_bit d i \<longleftrightarrow> (d ! (i div 8)) AND (push_bit (i mod 8) 1) \<noteq> 0"

text \<open>
  The \<open>while\<close> loop that finds the bucket index, started at \<open>i = 0\<close> with \<open>n\<close> the
  current number of buckets. Reading \<open>distance[i / 8]\<close> with \<open>i / 8 \<ge> 20\<close> is past the
  end of the array (undefined in C++); the model returns an error there.
\<close>

function bucket_scan :: "NodeID \<Rightarrow> nat \<Rightarrow> nat \<Rightarrow> dht_error + nat" where
  "bucket_scan d n i =
     (if i < n then
        (if NODE_ID_SIZE \<le> i div 8 then Inl ArrayReadOutOfBounds
         else if distance_bit d i then bucket_scan d n (i + 1)
         else Inr i)
      else Inr i)"
  by pat_completeness auto
termination
  by (relation "measure (\<lambda>(d, n, i). n - i)") auto

declare bucket_scan.simps [simp del]

text \<open>
  \<open>DHTBootstrap::add_to_routing_table\<close>. \<open>ping_ok\<close> is what \<open>ping(oldest_node)\<close>
  returns if it is called (a network operation). \<open>std::find\<close> returns the first
  entry equal to \<open>node\<close>, and \<open>std::rotate(it, it + 1, end)\<close> moves that entry to the
  back.
\<close>

definition add_to_routing_table ::
  "NodeID \<Rightarrow> Node \<Rightarrow> bool \<Rightarrow> Bucket list \<Rightarrow> dht_error + Bucket list" where
  "add_to_routing_table my_node_id node ping_ok routing_table =
     (case bucket_scan (xor_distance my_node_id (node_id node)) (length routing_table) 0 of
        Inl e \<Rightarrow> Inl e
      | Inr bucket_index \<Rightarrow>
          let rt = (if bucket_index \<ge> length routing_table then routing_table @ [[]]
                    else routing_table);
              bucket = rt ! bucket_index
          in Inr (rt[bucket_index :=
                (if node \<in> set bucket then remove1 node bucket @ [node]
                 else if length bucket < K then bucket @ [node]
                 else if ping_ok then tl bucket @ [hd bucket]
                 else node # tl bucket)]))"

text \<open>The table the constructor leaves: one empty bucket.\<close>

definition initial_routing_table :: "Bucket list" where
  "initial_routing_table = [[]]"

text \<open>
  A sequence of insertions, each with the outcome its eviction ping would have; it
  stops at the first error, as the program's behaviour is undefined from there.
\<close>

fun add_all :: "NodeID \<Rightarrow> (Node \<times> bool) list \<Rightarrow> Bucket list \<Rightarrow> dht_error + Bucket list" where
  "add_all my_node_id [] routing_table = Inr routing_table"
| "add_all my_node_id ((node, ping_ok) # rest) routing_table =
     (case add_to_routing_table my_node_id node ping_ok routing_table of
        Inl e \<Rightarrow> Inl e
      | Inr rt \<Rightarrow> add_all my_node_id rest rt)"

text \<open>
  \<open>DHTBootstrap::find_closest_nodes\<close>. \<open>std::sort\<close> with the comparator
  \<open>xor_distance(a.id, target) < xor_distance(b.id, target)\<close> is modelled by sorting on
  that key; \<open>std::sort\<close> fixes no order among entries of equal key, and no statement
  below depends on one.
\<close>

definition find_closest_nodes :: "Bucket list \<Rightarrow> NodeID \<Rightarrow> nat \<Rightarrow> Node list" where
  "find_closest_nodes routing_table target_id k =
     (let closest_nodes =
            sort_key (\<lambda>n. xor_distance (node_id n) target_id) (concat routing_table)
      in if length closest_nodes > k then take k closest_nodes else closest_nodes)"

text \<open>
  The reading of the bit scan that numbers the bits of the distance from the
  most-significant bit of byte 0: bit \<open>i\<close> is then bit \<open>7 - i mod 8\<close> of byte
  \<open>i div 8\<close>. It is stated here only to be compared with \<open>distance_bit\<close>.
\<close>

definition msb_first_bit :: "NodeID \<Rightarrow> nat \<Rightarrow> bool" where
  "msb_first_bit d i \<longleftrightarrow> bit (d ! (i div 8)) (7 - i mod 8)"

definition msb_first_index :: "NodeID \<Rightarrow> nat \<Rightarrow> nat" where
  "msb_first_index d n = length (takeWhile (msb_first_bit d) [0..<n])"

text \<open>Concrete identifiers for the worked examples.\<close>

definition zero_id :: NodeID where
  "zero_id = replicate 20 0"

definition first_byte_id :: "8 word \<Rightarrow> NodeID" where
  "first_byte_id b = b # replicate 19 0"

definition example_node :: "8 word \<Rightarrow> Node" where
  "example_node b = \<lparr>node_id = first_byte_id b, ip = ''10.0.0.1'', port = 6881\<rparr>"

definition eviction_ops :: "(Node \<times> bool) list" where
  "eviction_ops =
     map (\<lambda>i::nat. (example_node (of_nat (2 * i)), even i)) [1, 2, 3, 4, 5, 6, 7, 8, 9, 10, 4]"

section \<open>Engine state and inbound queries (src/dht_bootstrap.cpp)\<close>

text \<open>
  \<open>sockaddr_in\<close>: the four octets of \<open>sin_addr\<close> and the two bytes of \<open>sin_port\<close>, as
  they lie in memory (network byte order).
\<close>

record sockaddr_in =
  sin_addr :: "8 word \<times> 8 word \<times> 8 word \<times> 8 word"
  sin_port :: "8 word \<times> 8 word"

text \<open>\<open>ntohs\<close> of a field of two bytes, and the two bytes in memory of \<open>htons(p)\<close>.\<close>

definition ntohs :: "8 word \<times> 8 word \<Rightarrow> 16 word" where
  "ntohs b = push_bit 8 (ucast (fst b)) OR ucast (snd b)"

definition htons_bytes :: "16 word \<Rightarrow> 8 word list" where
  "htons_bytes p = [ucast (drop_bit 8 p), ucast p]"

text \<open>\<open>inet_ntoa\<close>: the dotted-decimal text of an address.\<close>

definition inet_ntoa :: "8 word \<times> 8 word \<times> 8 word \<times> 8 word \<Rightarrow> string" where
  "inet_ntoa addr =
     (case addr of (a, b, c, d) \<Rightarrow>
        to_string_nat (unat a) @ ''.'' @ to_string_nat (unat b) @ ''.''
          @ to_string_nat (unat c) @ ''.'' @ to_string_nat (unat d))"

text \<open>
  \<open>inet_pton(AF_INET, src, dst)\<close>, as the C library scans it: decimal octets of at
  most 255 without leading zeros, separated by dots, exactly four. The arguments
  after the text are \<open>saw_digit\<close>, \<open>octets\<close>, the octets completed and the current one.
\<close>

fun inet_pton4 :: "string \<Rightarrow> bool \<Rightarrow> nat \<Rightarrow> nat list \<Rightarrow> nat \<Rightarrow> 8 word list option" where
  "inet_pton4 [] saw_digit octets done cur =
     (if octets < 4 then None else Some (map of_nat (done @ [cur])))"
| "inet_pton4 (ch # src) saw_digit octets done cur =
     (if isdigit ch then
        (if saw_digit \<and> cur = 0 then None
         else if cur * 10 + digit_value ch > 255 then None
         else if \<not> saw_digit then
           (if octets + 1 > 4 then None
            else inet_pton4 src True (octets + 1) done (cur * 10 + digit_value ch))
         else inet_pton4 src True octets done (cur * 10 + digit_value ch))
      else if ch = CHR ''.'' \<and> saw_digit then
        (if octets = 4 then None else inet_pton4 src False octets (done @ [cur]) 0)
      else None)"

definition inet_pton :: "string \<Rightarrow> 8 word list option" where
  "inet_pton src = inet_pton4 src False 0 [] 0"

text \<open>Bytes as the \<open>char\<close>s of a \<open>std::string\<close>, and back.\<close>

definition chars_of_bytes :: "8 word list \<Rightarrow> string" where
  "chars_of_bytes bs = map (\<lambda>b. char_of (unat b)) bs"

definition bytes_of_chars :: "string \<Rightarrow> 8 word list" where
  "bytes_of_chars s = map (\<lambda>c. of_nat (of_char c)) s"

text \<open>
  The members of \<open>DHTBootstrap\<close> that the handlers use. \<open>peer_store_\<close> is a
  \<open>std::map<std::string, std::vector<Node>>\<close>.
\<close>

record dht_state =
  s_my_node_id :: NodeID
  s_routing_table :: "Bucket list"
  s_peer_store :: "(string \<times> Node list) list"

definition initial_state :: "NodeID \<Rightarrow> dht_state" where
  "initial_state my_node_id =
     \<lparr>s_my_node_id = my_node_id, s_routing_table = initial_routing_table, s_peer_store = []\<rparr>"

text \<open>The accessors of \<open>BencodedValue\<close> and \<open>std::map::at\<close>, which throw.\<close>

definition asDict :: "BencodedValue \<Rightarrow> dht_error + BencodedDict" where
  "asDict v = (case v of BDict d \<Rightarrow> Inr d | _ \<Rightarrow> Inl NotADict)"

definition asString :: "BencodedValue \<Rightarrow> dht_error + string" where
  "asString v = (case v of BString s \<Rightarrow> Inr s | _ \<Rightarrow> Inl NotAString)"

definition at_key :: "BencodedDict \<Rightarrow> string \<Rightarrow> dht_error + BencodedValue" where
  "at_key d k = (case map_of d k of None \<Rightarrow> Inl MissingKey | Some v \<Rightarrow> Inr v)"

text \<open>\<open>request.asDict().at(key).asString()\<close>\<close>

definition top_string :: "BencodedValue \<Rightarrow> string \<Rightarrow> dht_error + string" where
  "top_string request key =
     (case asDict request of
        Inl e \<Rightarrow> Inl e
      | Inr d \<Rightarrow> (case at_key d key of Inl e \<Rightarrow> Inl e | Inr v \<Rightarrow> asString v))"

text \<open>\<open>request.asDict().at("a").asDict().at(key).asString()\<close>\<close>

definition arg_string :: "BencodedValue \<Rightarrow> string \<Rightarrow> dht_error + string" where
  "arg_string request key =
     (case asDict request of
        Inl e \<Rightarrow> Inl e
      | Inr d \<Rightarrow>
          (case at_key d ''a'' of
             Inl e \<Rightarrow> Inl e
           | Inr a \<Rightarrow>
               (case asDict a of
                  Inl e \<Rightarrow> Inl e
                | Inr ad \<Rightarrow> (case at_key ad key of Inl e \<Rightarrow> Inl e | Inr v \<Rightarrow> asString v))))"

text \<open>\<open>std::string(reinterpret_cast<const char*>(my_node_id_.data()), 20)\<close>\<close>

definition id_string :: "dht_state \<Rightarrow> string" where
  "id_string st = chars_of_bytes (take 20 (s_my_node_id st))"

text \<open>
  The response every handler builds: \<open>response["t"]\<close>, \<open>response["y"] = "r"\<close> and
  \<open>response["r"]\<close>, a dictionary made from an initializer list.
\<close>

definition make_response :: "string \<Rightarrow> (string \<times> BencodedValue) list \<Rightarrow> BencodedValue" where
  "make_response transaction_id r =
     BDict (map_assign ''r'' (BDict (map_from_range r))
             (map_assign ''y'' (BString ''r'')
               (map_assign ''t'' (BString transaction_id) [])))"

text \<open>
  \<open>encode_peers\<close> and \<open>encode_nodes\<close>. When \<open>inet_pton\<close> fails, \<open>ip_binary\<close> is appended
  uninitialised; the model returns an error there.
\<close>

fun encode_peers :: "Node list \<Rightarrow> dht_error + string" where
  "encode_peers [] = Inr []"
| "encode_peers (peer # peers) =
     (case inet_pton (ip peer) of
        None \<Rightarrow> Inl BadAddressString
      | Some ip_binary \<Rightarrow>
          (case encode_peers peers of
             Inl e \<Rightarrow> Inl e
           | Inr rest \<Rightarrow>
               Inr (chars_of_bytes ip_binary @ chars_of_bytes (htons_bytes (port peer)) @ rest)))"

fun encode_nodes :: "Node list \<Rightarrow> dht_error + string" where
  "encode_nodes [] = Inr []"
| "encode_nodes (node # nodes) =
     (case inet_pton (ip node) of
        None \<Rightarrow> Inl BadAddressString
      | Some ip_binary \<Rightarrow>
          (case encode_nodes nodes of
             Inl e \<Rightarrow> Inl e
           | Inr rest \<Rightarrow>
               Inr (chars_of_bytes (take 20 (node_id node)) @ chars_of_bytes ip_binary
                    @ chars_of_bytes (htons_bytes (port node)) @ rest)))"

text \<open>
  \<open>std::memcpy(target_id.data(), str.data(), NODE_ID_SIZE)\<close> from a string: the
  string's storage ends with a terminating zero; reading further is out of bounds.
\<close>

definition memcpy_node_id :: "string \<Rightarrow> dht_error + NodeID" where
  "memcpy_node_id str =
     (if length str + 1 < NODE_ID_SIZE then Inl ArrayReadOutOfBounds
      else Inr (take NODE_ID_SIZE (bytes_of_chars str @ [0])))"

definition string_to_node_id :: "string \<Rightarrow> dht_error + NodeID" where
  "string_to_node_id str =
     (if length str \<noteq> NODE_ID_SIZE then Inl InvalidNodeIdLength
      else Inr (bytes_of_chars str))"

text \<open>
  A handler returns the new state and the datagram it sends, if any. An exception
  inside a handler is caught there: nothing is sent, and what was changed before
  the throw stays changed. \<open>Inl\<close> is behaviour the language leaves undefined.
\<close>

type_synonym handled = "dht_error + (dht_state \<times> string option)"

definition handle_ping :: "dht_state \<Rightarrow> BencodedValue \<Rightarrow> handled" where
  "handle_ping st request =
     (case top_string request ''t'' of
        Inl e \<Rightarrow> Inr (st, None)
      | Inr transaction_id \<Rightarrow>
          Inr (st, Some (encode (make_response transaction_id
                 [(''id'', BString (id_string st))]))))"

definition nodes_response :: "dht_state \<Rightarrow> string \<Rightarrow> NodeID \<Rightarrow> handled" where
  "nodes_response st transaction_id target_id =
     (case encode_nodes (find_closest_nodes (s_routing_table st) target_id K) of
        Inl e \<Rightarrow> Inl e
      | Inr nodes \<Rightarrow>
          Inr (st, Some (encode (make_response transaction_id
                 [(''id'', BString (id_string st)), (''nodes'', BString nodes)]))))"

definition handle_find_node :: "dht_state \<Rightarrow> BencodedValue \<Rightarrow> handled" where
  "handle_find_node st request =
     (case top_string request ''t'' of
        Inl e \<Rightarrow> Inr (st, None)
      | Inr transaction_id \<Rightarrow>
          (case arg_string request ''target'' of
             Inl e \<Rightarrow> Inr (st, None)
           | Inr target_id_str \<Rightarrow>
               (case memcpy_node_id target_id_str of
                  Inl e \<Rightarrow> Inl e
                | Inr target_id \<Rightarrow> nodes_response st transaction_id target_id)))"

definition handle_get_peers :: "dht_state \<Rightarrow> BencodedValue \<Rightarrow> handled" where
  "handle_get_peers st request =
     (case top_string request ''t'' of
        Inl e \<Rightarrow> Inr (st, None)
      | Inr transaction_id \<Rightarrow>
          (case arg_string request ''info_hash'' of
             Inl e \<Rightarrow> Inr (st, None)
           | Inr infohash \<Rightarrow>
               (case map_of (s_peer_store st) infohash of
                  Some peers \<Rightarrow>
                    (case encode_peers peers of
                       Inl e \<Rightarrow> Inl e
                     | Inr values \<Rightarrow>
                         Inr (st, Some (encode (make_response transaction_id
                                [(''id'', BString (id_string st)),
                                 (''values'', BString values)]))))
                | None \<Rightarrow>
                    (case memcpy_node_id infohash of
                       Inl e \<Rightarrow> Inl e
                     | Inr target_id \<Rightarrow> nodes_response st transaction_id target_id))))"

text \<open>\<open>peer_store_[infohash].push_back(peer)\<close>\<close>

definition store_push :: "string \<Rightarrow> Node \<Rightarrow> (string \<times> Node list) list \<Rightarrow> (string \<times> Node list) list" where
  "store_push infohash peer store =
     map_assign infohash
       ((case map_of store infohash of None \<Rightarrow> [] | Some peers \<Rightarrow> peers) @ [peer]) store"

text \<open>
  \<open>handle_announce_peer\<close>. \<open>Node peer;\<close> leaves \<open>peer.id\<close> uninitialised: \<open>stack_id\<close> is
  whatever the array holds. The peer is stored before \<open>string_to_node_id(infohash)\<close>
  is evaluated for the log line.
\<close>

definition handle_announce_peer ::
  "dht_state \<Rightarrow> BencodedValue \<Rightarrow> sockaddr_in \<Rightarrow> NodeID \<Rightarrow> handled" where
  "handle_announce_peer st request sender_addr stack_id =
     (case arg_string request ''info_hash'' of
        Inl e \<Rightarrow> Inr (st, None)
      | Inr infohash \<Rightarrow>
          let peer = \<lparr>node_id = stack_id, ip = inet_ntoa (sin_addr sender_addr),
                      port = ntohs (sin_port sender_addr)\<rparr>;
              st1 = st\<lparr>s_peer_store := store_push infohash peer (s_peer_store st)\<rparr>
          in (case string_to_node_id infohash of
                Inl e \<Rightarrow> Inr (st1, None)
              | Inr logged_id \<Rightarrow>
                  (case top_string request ''t'' of
                     Inl e \<Rightarrow> Inr (st1, None)
                   | Inr transaction_id \<Rightarrow>
                       Inr (st1, Some (encode (make_response transaction_id
                              [(''id'', BString (id_string st1))]))))))"

text \<open>The dispatch of \<open>DHTBootstrap::run\<close> on a decoded message.\<close>

definition dispatch ::
  "dht_state \<Rightarrow> BencodedValue \<Rightarrow> sockaddr_in \<Rightarrow> NodeID \<Rightarrow> handled" where
  "dispatch st message sender_addr stack_id =
     (case top_string message ''y'' of
        Inl e \<Rightarrow> Inr (st, None)
      | Inr message_type \<Rightarrow>
          if message_type = ''q'' then
            (case top_string message ''q'' of
               Inl e \<Rightarrow> Inr (st, None)
             | Inr query_type \<Rightarrow>
                 if query_type = ''ping'' then handle_ping st message
                 else if query_type = ''find_node'' then handle_find_node st message
                 else if query_type = ''get_peers'' then handle_get_peers st message
                 else if query_type = ''announce_peer''
                   then handle_announce_peer st message sender_addr stack_id
                 else Inr (st, None))
          else Inr (st, None))"

text \<open>The 6-byte compact form of an endpoint: address, then port, in network order.\<close>

definition compact_endpoint :: "sockaddr_in \<Rightarrow> string" where
  "compact_endpoint a =
     (case sin_addr a of (a1, a2, a3, a4) \<Rightarrow>
        chars_of_bytes [a1, a2, a3, a4, fst (sin_port a), snd (sin_port a)])"

definition announce_example :: "string \<Rightarrow> BencodedValue" where
  "announce_example infohash =
     BDict [(''a'', BDict [(''id'', BString ''abcdefghij0123456789''),
                           (''info_hash'', BString infohash)]),
            (''q'', BString ''announce_peer''), (''t'', BString ''aa''), (''y'', BString ''q'')]"

definition get_peers_example :: "string \<Rightarrow> BencodedValue" where
  "get_peers_example infohash =
     BDict [(''a'', BDict [(''id'', BString ''abcdefghij0123456789''),
                           (''info_hash'', BString infohash)]),
            (''q'', BString ''get_peers''), (''t'', BString ''gp''), (''y'', BString ''q'')]"

definition sender_example :: sockaddr_in where
  "sender_example = \<lparr>sin_addr = (9, 9, 9, 9), sin_port = (4, 210)\<rparr>"

text \<open>Every stored peer has an address text that \<open>inet_pton\<close> accepts.\<close>

definition store_ok :: "(string \<times> Node list) list \<Rightarrow> bool" where
  "store_ok store \<longleftrightarrow> (\<forall>(k, peers) \<in> set store. \<forall>p \<in> set peers. inet_pton (ip p) \<noteq> None)"

text \<open>A state that already holds peers under two infohashes.\<close>

definition stored_example :: dht_state where
  "stored_example =
     \<lparr>s_my_node_id = zero_id, s_routing_table = initial_routing_table,
      s_peer_store =
        [(''ABCDEFGHIJKLMNOPQRST'', [\<lparr>node_id = zero_id, ip = ''1.2.3.4'', port = 5\<rparr>]),
         (''ZZZZZZZZZZZZZZZZZZZZ'', [\<lparr>node_id = zero_id, ip = ''10.0.0.7'', port = 6881\<rparr>])]\<rparr>"

section \<open>Properties of the routing table\<close>

lemma bucket_scan_bounds:
  "bucket_scan d n i = Inr j \<Longrightarrow> i \<le> n \<Longrightarrow> j \<le> n"
proof (induction d n i rule: bucket_scan.induct)
  case (1 d n i)
  then show ?case
    by (subst (asm) (2) bucket_scan.simps) (auto split: if_splits)
qed

lemma add_to_routing_table_bound:
  assumes "add_to_routing_table my n p rt = Inr rt'" and "\<forall>b\<in>set rt. length b \<le> K"
  shows "\<forall>b\<in>set rt'. length b \<le> K"
proof -
  obtain bi where bi: "bucket_scan (xor_distance my (node_id n)) (length rt) 0 = Inr bi"
    using assms(1) by (auto simp: add_to_routing_table_def split: sum.splits)
  have le: "bi \<le> length rt" using bucket_scan_bounds[OF bi] by simp
  define rt1 where "rt1 = (if bi \<ge> length rt then rt @ [[]] else rt)"
  have rt1: "\<forall>b\<in>set rt1. length b \<le> K" "bi < length rt1"
    using assms(2) le by (auto simp: rt1_def)
  define b where "b = rt1 ! bi"
  have bK: "length b \<le> K" using rt1 by (simp add: b_def)
  define b' where "b' = (if n \<in> set b then remove1 n b @ [n]
                 else if length b < K then b @ [n]
                 else if p then tl b @ [hd b]
                 else n # tl b)"
  have "length b' \<le> K"
    using bK by (auto simp: b'_def length_remove1 K_def)
  moreover have "rt' = rt1[bi := b']"
    using assms(1) bi
    by (simp add: add_to_routing_table_def rt1_def b_def b'_def Let_def
          split del: if_split cong: if_cong)
  ultimately show ?thesis using rt1(1)
    by (auto dest!: set_update_subset_insert[THEN subsetD])
qed

lemma add_all_bound:
  "add_all my ops rt = Inr rt' \<Longrightarrow> \<forall>b\<in>set rt. length b \<le> K \<Longrightarrow>
   \<forall>b\<in>set rt'. length b \<le> K"
proof (induction ops arbitrary: rt)
  case Nil
  then show ?case by simp
next
  case (Cons a ops)
  obtain n p where a: "a = (n, p)" by (cases a)
  from Cons.prems(1) obtain rt1 where s: "add_to_routing_table my n p rt = Inr rt1"
    and r: "add_all my ops rt1 = Inr rt'"
    by (auto simp: a split: sum.splits)
  show ?case
    using Cons.IH[OF r] add_to_routing_table_bound[OF s Cons.prems(2)] by blast
qed

text \<open>
  C5. Starting from the table the constructor builds, after any sequence of
  insertions, whatever each eviction ping answers, every bucket holds at most
  \<open>K = 8\<close> nodes. Every prefix of a sequence is a sequence, so this is the bound
  after each insertion. (A sequence that makes the index scan read past the 20 bytes
  of the distance has no defined behaviour in the source and yields \<open>Inl\<close> here.)
\<close>

theorem bucket_size_at_most_K:
  "add_all my_node_id ops initial_routing_table = Inr rt \<Longrightarrow> b \<in> set rt \<Longrightarrow>
   length b \<le> K \<and> length b \<le> 8"
  using add_all_bound[of my_node_id ops initial_routing_table rt]
  by (simp add: initial_routing_table_def K_def)

theorem bucket_size_at_most_K_witness:
  "add_all zero_id eviction_ops initial_routing_table
     = Inr [map (\<lambda>i::nat. example_node (of_nat i)) [4, 6, 10, 12, 14, 16, 18, 8]]
   \<and> length (map (\<lambda>i::nat. example_node (of_nat i)) [4, 6, 10, 12, 14, 16, 18, 8]) \<le> K
   \<and> length (map (\<lambda>i::nat. example_node (of_nat i)) [4, 6, 10, 12, 14, 16, 18, 8]) \<le> 8"
proof -
  have h: "add_all zero_id eviction_ops initial_routing_table
     = Inr [map (\<lambda>i::nat. example_node (of_nat i)) [4, 6, 10, 12, 14, 16, 18, 8]]"
    by code_simp
  show ?thesis
    using h bucket_size_at_most_K[OF h,
        of "map (\<lambda>i::nat. example_node (of_nat i)) [4, 6, 10, 12, 14, 16, 18, 8]"]
    by simp
qed

subsection \<open>The bucket index\<close>

lemma distance_bit_iff: "distance_bit d i \<longleftrightarrow> bit (d ! (i div 8)) (i mod 8)"
  by (simp add: distance_bit_def bit_iff_and_push_bit_not_eq_0)

lemma xor_distance_nth: "j < NODE_ID_SIZE \<Longrightarrow> xor_distance a b ! j = (a ! j) XOR (b ! j)"
  by (simp add: xor_distance_def)

lemma takeWhile_upt_step:
  "i < m \<Longrightarrow> takeWhile P [i..<m] = (if P i then i # takeWhile P [Suc i..<m] else [])"
  by (simp add: upt_rec)

lemma bucket_scan_from:
  "m = min n (8 * NODE_ID_SIZE) \<Longrightarrow> i \<le> m \<Longrightarrow>
   bucket_scan d n i =
     (if i + length (takeWhile (distance_bit d) [i..<m]) < m \<or> n \<le> 8 * NODE_ID_SIZE
      then Inr (i + length (takeWhile (distance_bit d) [i..<m]))
      else Inl ArrayReadOutOfBounds)"
proof (induction d n i rule: bucket_scan.induct)
  case (1 d n i)
  note m = "1.prems"(1)
  show ?case
  proof (cases "i < n")
    case False
    with "1.prems" show ?thesis
      by (subst bucket_scan.simps) auto
  next
    case lt: True
    show ?thesis
    proof (cases "NODE_ID_SIZE \<le> i div 8")
      case True
      with lt "1.prems" show ?thesis
        by (subst bucket_scan.simps) (auto simp: NODE_ID_SIZE_def)
    next
      case small: False
      then have im: "i < m" using lt m by (auto simp: NODE_ID_SIZE_def)
      note tw = takeWhile_upt_step[OF im, of "distance_bit d"]
      show ?thesis
      proof (cases "distance_bit d i")
        case True
        have "bucket_scan d n i = bucket_scan d n (i + 1)"
          using lt small True by (subst bucket_scan.simps) simp
        also have "\<dots> = (if (i + 1) + length (takeWhile (distance_bit d) [i + 1..<m]) < m
                              \<or> n \<le> 8 * NODE_ID_SIZE
            then Inr ((i + 1) + length (takeWhile (distance_bit d) [i + 1..<m]))
            else Inl ArrayReadOutOfBounds)"
          using "1.IH"[OF lt small True m] im by simp
        finally show ?thesis using True by (simp add: tw)
      next
        case False
        then show ?thesis using lt small im
          by (subst bucket_scan.simps) (simp add: tw)
      qed
    qed
  qed
qed

lemma add_to_routing_table_length:
  assumes "add_to_routing_table my n p rt = Inr rt'"
  shows "\<exists>i. bucket_scan (xor_distance my (node_id n)) (length rt) 0 = Inr i \<and>
             length rt' = (if i = length rt then Suc (length rt) else length rt)"
proof -
  obtain bi where bi: "bucket_scan (xor_distance my (node_id n)) (length rt) 0 = Inr bi"
    using assms(1) by (auto simp: add_to_routing_table_def split: sum.splits)
  have le: "bi \<le> length rt" using bucket_scan_bounds[OF bi] by simp
  have "length rt' = (if bi = length rt then Suc (length rt) else length rt)"
    using assms bi le by (auto simp: add_to_routing_table_def Let_def)
  then show ?thesis using bi by blast
qed

text \<open>
  C4, as the code has it. The distance is the bytewise XOR of the two identifiers.
  Step \<open>i\<close> of the scan tests bit \<open>i mod 8\<close> of byte \<open>i div 8\<close>, counted from the
  least-significant bit of that byte (the mask is \<open>1 << (i % 8)\<close>): the bytes are
  visited from the most significant one, the bits inside a byte from the least
  significant one. The index is the number of leading tested bits that are set, at
  most the bucket count \<open>n\<close>; with more than 160 buckets the scan can run past the
  array. An insertion that returns appends one bucket exactly when the index has
  reached the bucket count.
\<close>

theorem bucket_index_scan:
  "(j < NODE_ID_SIZE \<longrightarrow>
      xor_distance my_node_id other ! j = (my_node_id ! j) XOR (other ! j))
   \<and> (distance_bit d i \<longleftrightarrow> bit (d ! (i div 8)) (i mod 8))
   \<and> bucket_scan d n 0 =
       (if length (takeWhile (distance_bit d) [0..<min n (8 * NODE_ID_SIZE)])
             < min n (8 * NODE_ID_SIZE) \<or> n \<le> 8 * NODE_ID_SIZE
        then Inr (length (takeWhile (distance_bit d) [0..<min n (8 * NODE_ID_SIZE)]))
        else Inl ArrayReadOutOfBounds)
   \<and> (add_to_routing_table my_node_id node ping_ok rt = Inr rt' \<longrightarrow>
        (\<exists>k. bucket_scan (xor_distance my_node_id (node_id node)) (length rt) 0 = Inr k
           \<and> length rt' = (if k = length rt then Suc (length rt) else length rt)))"
proof (intro conjI impI)
  show "bucket_scan d n 0 =
       (if length (takeWhile (distance_bit d) [0..<min n (8 * NODE_ID_SIZE)])
             < min n (8 * NODE_ID_SIZE) \<or> n \<le> 8 * NODE_ID_SIZE
        then Inr (length (takeWhile (distance_bit d) [0..<min n (8 * NODE_ID_SIZE)]))
        else Inl ArrayReadOutOfBounds)"
    using bucket_scan_from[of "min n (8 * NODE_ID_SIZE)" n 0 d]
    by (simp only: add_0 le0 refl simp_thms)
qed (simp_all add: xor_distance_nth distance_bit_iff add_to_routing_table_length)

theorem bucket_index_scan_witness:
  "xor_distance zero_id (first_byte_id 3) ! 0 = (zero_id ! 0) XOR (first_byte_id 3 ! 0)
   \<and> distance_bit (first_byte_id 3) 1
   \<and> bucket_scan (first_byte_id 3) 5 0 = Inr 2
   \<and> add_to_routing_table zero_id (example_node 3) True [[]] = Inr [[], [example_node 3]]
   \<and> bucket_scan (xor_distance zero_id (node_id (example_node 3))) (length [[] :: Bucket]) 0
       = Inr 1"
proof -
  have a: "add_to_routing_table zero_id (example_node 3) True [[]] = Inr [[], [example_node 3]]"
    by code_simp
  have b: "bucket_scan (first_byte_id 3) 5 0 = Inr 2"
    by code_simp
  have c: "bucket_scan (xor_distance zero_id (node_id (example_node 3))) (length [[] :: Bucket]) 0
       = Inr 1"
    by code_simp
  have d: "(0::nat) < NODE_ID_SIZE" by (simp add: NODE_ID_SIZE_def)
  have e: "distance_bit (first_byte_id 3) 1" by code_simp
  show ?thesis
    using a b c d e
      bucket_index_scan[where j = 0 and my_node_id = zero_id and other = "first_byte_id 3"
        and d = "first_byte_id 3" and i = 1 and n = 5 and node = "example_node 3"
        and ping_ok = True and rt = "[[]]" and rt' = "[[], [example_node 3]]"]
    by simp
qed

text \<open>
  C4, as the claim words it, numbers the bits from the most-significant bit of byte 0.
  For the distance \<open>01 00 \<dots> 00\<close> and one bucket that reading gives index 0 (the
  most-significant bit is clear), while the code tests the least-significant bit of
  byte 0, finds it set and returns index 1.
\<close>

theorem bucket_index_msb_first_counterexample:
  "bucket_scan (xor_distance zero_id (first_byte_id 1)) 1 0 = Inr 1
   \<and> msb_first_index (xor_distance zero_id (first_byte_id 1)) 1 = 0"
  by code_simp

subsection \<open>Inserting a node twice\<close>

text \<open>
  C8. With local identifier \<open>00 \<dots> 00\<close> and a fresh table, inserting the node with
  identifier \<open>03 00 \<dots> 00\<close> twice leaves two copies of it, in buckets 1 and 2: the
  index scan is bounded by the bucket count, which the first insertion has raised,
  so the second insertion looks for the node in another bucket.
\<close>

theorem add_same_node_twice_two_copies:
  "add_all zero_id [(example_node 3, True), (example_node 3, True)] initial_routing_table
     = Inr [[], [example_node 3], [example_node 3]]
   \<and> count_list (concat [[], [example_node 3], [example_node 3]]) (example_node 3) = 2"
  by code_simp

text \<open>
  When the node is found in the bucket the scan selects, it is moved to the tail of
  that bucket and nothing else changes.
\<close>

lemma add_present_moves_to_tail:
  assumes "bucket_scan (xor_distance my (node_id n)) (length rt) 0 = Inr i"
    and "i < length rt" and "n \<in> set (rt ! i)"
  shows "add_to_routing_table my n p rt = Inr (rt[i := remove1 n (rt ! i) @ [n]])"
  using assms by (simp add: add_to_routing_table_def)

subsection \<open>The closest nodes\<close>

lemma find_closest_sorted:
  "sorted (map (\<lambda>n. xor_distance (node_id n) t) (find_closest_nodes rt t k))"
  by (simp add: find_closest_nodes_def Let_def sorted_wrt_take flip: take_map)

lemma find_closest_length:
  "length (find_closest_nodes rt t k) = min k (length (concat rt))"
  by (simp add: find_closest_nodes_def Let_def)

lemma find_closest_set:
  "set (find_closest_nodes rt t k) \<subseteq> set (concat rt)"
  by (auto simp: find_closest_nodes_def Let_def dest: in_set_takeD)

lemma find_closest_distinct:
  "distinct (concat rt) \<Longrightarrow> distinct (find_closest_nodes rt t k)"
  by (simp add: find_closest_nodes_def Let_def)

text \<open>
  C6. The result is sorted by distance and has \<open>min k total\<close> entries (the lemmas
  above), but it repeats a node that the table holds twice: on the table reached by
  inserting the node \<open>03 00 \<dots> 00\<close> twice, the query returns that node twice.
\<close>

theorem find_closest_nodes_repeats_node:
  "add_all zero_id [(example_node 3, False), (example_node 3, False)] initial_routing_table
     = Inr [[], [example_node 3], [example_node 3]]
   \<and> find_closest_nodes [[], [example_node 3], [example_node 3]] zero_id K
     = [example_node 3, example_node 3]
   \<and> \<not> distinct (find_closest_nodes [[], [example_node 3], [example_node 3]] zero_id K)"
  by code_simp


section \<open>Properties of the codec\<close>

lemma of_char_digit_char: "d < 10 \<Longrightarrow> (of_char (digit_char d) :: nat) = 48 + d"
  by (simp add: digit_char_def)

lemma isdigit_digit_char: "d < 10 \<Longrightarrow> isdigit (digit_char d)"
  by (simp add: isdigit_def of_char_digit_char)

lemma digit_value_digit_char: "d < 10 \<Longrightarrow> digit_value (digit_char d) = d"
  by (simp add: digit_value_def of_char_digit_char)

lemma isdigit_not_special:
  "isdigit c \<Longrightarrow> c \<noteq> CHR ''e'' \<and> c \<noteq> CHR '':'' \<and> c \<noteq> CHR ''-'' \<and> c \<noteq> CHR ''+''
     \<and> c \<noteq> CHR ''i'' \<and> c \<noteq> CHR ''l'' \<and> c \<noteq> CHR ''d'' \<and> \<not> isspace c"
  by (auto simp: isdigit_def isspace_def)

lemma to_string_nat_digits: "\<forall>c \<in> set (to_string_nat n). isdigit c"
proof (induction n rule: to_string_nat.induct)
  case (1 n)
  show ?case
  proof (cases "n < 10")
    case True
    then show ?thesis by (subst to_string_nat.simps) (simp add: isdigit_digit_char)
  next
    case False
    with 1 show ?thesis by (subst to_string_nat.simps) (simp add: isdigit_digit_char)
  qed
qed

lemma to_string_nat_nonempty: "to_string_nat n \<noteq> []"
  by (subst to_string_nat.simps) simp

lemma digits_value_snoc: "digits_value (ds @ [c]) = 10 * digits_value ds + digit_value c"
  by (simp add: digits_value_def)

lemma digits_value_to_string_nat: "digits_value (to_string_nat n) = n"
proof (induction n rule: to_string_nat.induct)
  case (1 n)
  show ?case
  proof (cases "n < 10")
    case True
    then show ?thesis
      by (subst to_string_nat.simps) (simp add: digits_value_def digit_value_digit_char)
  next
    case False
    with 1 show ?thesis
      by (subst to_string_nat.simps) (simp add: digits_value_snoc digit_value_digit_char)
  qed
qed

lemma stoll_digits:
  assumes "ds \<noteq> []" and "\<forall>c \<in> set ds. isdigit c"
  shows "stoll ds = (if 9223372036854775807 < int (digits_value ds) then Inl StollOutOfRange
                     else Inr (int (digits_value ds)))"
proof -
  obtain c cs where ds: "ds = c # cs" using assms(1) by (cases ds) auto
  have c: "isdigit c" using assms(2) ds by simp
  note sp = isdigit_not_special[OF c]
  have tw: "takeWhile isdigit ds = ds" using assms(2) by (simp add: takeWhile_eq_all_conv)
  have dw: "dropWhile isspace ds = ds" using sp by (simp add: ds)
  show ?thesis
    unfolding stoll_def dw Let_def using sp assms(1) by (simp add: tw) (simp add: ds)
qed

lemma stoll_minus_digits:
  assumes "ds \<noteq> []" and "\<forall>c \<in> set ds. isdigit c"
  shows "stoll (CHR ''-'' # ds) = (if 9223372036854775808 < int (digits_value ds) then Inl StollOutOfRange
                     else Inr (- int (digits_value ds)))"
proof -
  have tw: "takeWhile isdigit ds = ds" using assms(2) by (simp add: takeWhile_eq_all_conv)
  have dw: "dropWhile isspace (CHR ''-'' # ds) = CHR ''-'' # ds" by (simp add: isspace_def)
  show ?thesis
    unfolding stoll_def dw Let_def using assms(1) by (simp add: tw)
qed

lemma stoll_to_string_nat:
  "n < 9223372036854775808 \<Longrightarrow> stoll (to_string_nat n) = Inr (int n)"
  using stoll_digits[OF to_string_nat_nonempty to_string_nat_digits, of n]
  by (simp add: digits_value_to_string_nat)

lemma stoll_to_string_int:
  "- 9223372036854775808 \<le> i \<Longrightarrow> i < 9223372036854775808 \<Longrightarrow> stoll (to_string_int i) = Inr i"
  using stoll_digits[OF to_string_nat_nonempty to_string_nat_digits, of "nat i"]
    stoll_minus_digits[OF to_string_nat_nonempty to_string_nat_digits, of "nat (- i)"]
  by (auto simp: to_string_int_def digits_value_to_string_nat)

lemma stoll_sint: "stoll (to_string_int (sint (w :: 64 word))) = Inr (sint w)"
proof -
  have "- (2 ^ 63) \<le> sint w" "sint w < 2 ^ 63"
    using sint_ge[of w] sint_lt[of w] by simp_all
  then show ?thesis by (intro stoll_to_string_int) simp_all
qed

lemma to_string_int_chars:
  "c \<in> set (to_string_int i) \<Longrightarrow> isdigit c \<or> c = CHR ''-''"
  using to_string_nat_digits by (auto simp: to_string_int_def split: if_splits)

lemma takeWhile_until:
  "c \<notin> set ds \<Longrightarrow> takeWhile (\<lambda>x. x \<noteq> c) (ds @ c # rest) = ds"
  by (induction ds) auto

lemma find_char_here:
  "c \<notin> set ds \<Longrightarrow> p = length pre \<Longrightarrow>
   find_char c (pre @ ds @ c # rest) p = Some (length pre + length ds)"
  by (simp add: find_char_def takeWhile_until)

lemma substr_here:
  "p = length pre \<Longrightarrow> n = int (length s) \<Longrightarrow> substr (pre @ s @ rest) p n = s"
  by (simp add: substr_def)

lemma parseInt_bencoding:
  "parseInt (pre @ encodeInt w @ rest) (length pre) = Ok w (length pre + length (encodeInt w))"
proof -
  define ds where "ds = to_string_int (sint w)"
  have e: "CHR ''e'' \<notin> set ds"
    using to_string_int_chars[of "CHR ''e''" "sint w"] isdigit_not_special[of "CHR ''e''"]
    by (auto simp: ds_def)
  have data: "pre @ encodeInt w @ rest = (pre @ ''i'') @ ds @ CHR ''e'' # rest"
    by (simp add: encodeInt_def ds_def)
  have f: "find_char CHR ''e'' ((pre @ ''i'') @ ds @ CHR ''e'' # rest) (length pre + 1)
             = Some (length (pre @ ''i'') + length ds)"
    by (rule find_char_here[OF e]) simp
  have s: "substr ((pre @ ''i'') @ ds @ CHR ''e'' # rest) (length pre + 1) (int (length ds)) = ds"
    by (rule substr_here) simp_all
  have st: "stoll ds = Inr (sint w)" by (simp add: ds_def stoll_sint)
  show ?thesis
    unfolding data parseInt_def Let_def f
    using s st by (simp add: encodeInt_def ds_def[symmetric])
qed

lemma parseString_bencoding:
  assumes "length (pre @ encodeString s @ rest) < 9223372036854775808"
  shows "parseString (pre @ encodeString s @ rest) (length pre)
           = Ok s (length pre + length (encodeString s))"
proof -
  define ds where "ds = to_string_nat (length s)"
  have c: "CHR '':'' \<notin> set ds"
    using to_string_nat_digits[of "length s"] isdigit_not_special[of "CHR '':''"]
    by (auto simp: ds_def)
  have data: "pre @ encodeString s @ rest = pre @ ds @ CHR '':'' # (s @ rest)"
    by (simp add: encodeString_def ds_def)
  have data2: "pre @ ds @ CHR '':'' # (s @ rest) = (pre @ ds @ '':'') @ s @ rest"
    by simp
  have small: "length pre + length ds + 1 + length s + length rest < 9223372036854775808"
    using assms by (simp add: encodeString_def ds_def)
  have f: "find_char CHR '':'' (pre @ ds @ CHR '':'' # (s @ rest)) (length pre)
             = Some (length pre + length ds)"
    by (rule find_char_here[OF c]) simp
  have s1: "substr (pre @ ds @ CHR '':'' # (s @ rest)) (length pre)
              (int (length pre + length ds) - int (length pre)) = ds"
    by (rule substr_here) simp_all
  have st: "stoll ds = Inr (int (length s))"
    unfolding ds_def using small by (intro stoll_to_string_nat) simp
  have s2: "substr (pre @ ds @ CHR '':'' # (s @ rest)) (length pre + length ds + 1) (int (length s)) = s"
    unfolding data2 by (rule substr_here) simp_all
  have m1: "int (length s) mod 18446744073709551616 = int (length s)"
    using small by simp
  have m2: "(int (length pre + length ds + 1) + int (length s)) mod 18446744073709551616
             = int (length pre + length ds + 1 + length s)"
    using small by simp
  show ?thesis
    unfolding data parseString_def f option.case s1 st sum.case Let_def m1 m2
    using s2 by (simp add: encodeString_def ds_def[symmetric])
qed

lemma to_string_nat_hd: "\<exists>c cs. to_string_nat n = c # cs \<and> isdigit c"
  using to_string_nat_nonempty[of n] to_string_nat_digits[of n]
  by (cases "to_string_nat n") auto

lemma encodeString_hd: "\<exists>c cs. encodeString k = c # cs \<and> isdigit c"
  using to_string_nat_hd[of "length k"] by (auto simp: encodeString_def)

lemma bencoding_hd:
  "\<exists>c cs. bencoding t = c # cs \<and> c \<noteq> CHR ''e''
     \<and> (c = CHR ''i'' \<or> c = CHR ''l'' \<or> c = CHR ''d''
         \<or> (isdigit c \<and> (\<exists>s. t = BString s)))"
proof (cases t)
  case (BString s)
  then show ?thesis
    using encodeString_hd[of s] isdigit_not_special by auto
qed (auto simp: encodeInt_def)

lemma nth_at_prefix: "p = length pre \<Longrightarrow> (pre @ c # rest) ! p = c"
  by simp

lemma parseList_items:
  assumes IH: "\<And>x fuel pre rest. x \<in> set l \<Longrightarrow> length (bencoding x) \<le> fuel \<Longrightarrow>
      length (pre @ bencoding x @ rest) < (9223372036854775808::nat) \<Longrightarrow>
      parseValue fuel (pre @ bencoding x @ rest) (length pre)
        = Ok (stored x) (length pre + length (bencoding x))"
  shows "length (concat (map bencoding l)) < fuel \<Longrightarrow>
     length (pre @ concat (map bencoding l) @ CHR ''e'' # rest) < (9223372036854775808::nat) \<Longrightarrow>
     parseList fuel (pre @ concat (map bencoding l) @ CHR ''e'' # rest) (length pre) acc
       = Ok (acc @ map stored l) (length pre + length (concat (map bencoding l)) + 1)"
  using IH
proof (induction l arbitrary: fuel pre acc)
  case Nil
  then obtain f where fuel: "fuel = Suc f" by (cases fuel) auto
  show ?case unfolding fuel by simp
next
  case (Cons x xs)
  from Cons.prems(1) obtain f where fuel: "fuel = Suc f" by (cases fuel) auto
  define tail where "tail = concat (map bencoding xs)"
  define data where "data = pre @ concat (map bencoding (x # xs)) @ CHR ''e'' # rest"
  obtain c cs where bx: "bencoding x = c # cs" and c: "c \<noteq> CHR ''e''"
    using bencoding_hd[of x] by blast
  have d1: "data = pre @ bencoding x @ (tail @ CHR ''e'' # rest)"
    by (simp add: data_def tail_def)
  have d2: "data = (pre @ bencoding x) @ tail @ CHR ''e'' # rest"
    by (simp add: data_def tail_def)
  have d3: "data = pre @ c # (cs @ tail @ CHR ''e'' # rest)"
    by (simp add: d1 bx)
  have small: "length data < (9223372036854775808::nat)" using Cons.prems(2) by (simp add: data_def)
  have lt: "length pre < length data" by (simp add: d3)
  have ch: "data ! length pre = c" unfolding d3 by (rule nth_at_prefix) simp
  have fx: "length (bencoding x) \<le> f" and fxs: "length tail < f"
    using Cons.prems(1) by (simp_all add: fuel tail_def bx)
  have v: "parseValue f data (length pre) = Ok (stored x) (length pre + length (bencoding x))"
    unfolding d1 using small by (intro Cons.prems(3)) (simp_all add: fx d1[symmetric])
  have r: "parseList f data (length (pre @ bencoding x)) (acc @ [stored x])
      = Ok ((acc @ [stored x]) @ map stored xs) (length (pre @ bencoding x) + length tail + 1)"
    unfolding d2 tail_def
  proof (rule Cons.IH)
    show "length (concat (map bencoding xs)) < f" using fxs by (simp add: tail_def)
    show "length ((pre @ bencoding x) @ concat (map bencoding xs) @ CHR ''e'' # rest) < (9223372036854775808::nat)"
      using small by (simp add: d2 tail_def)
    fix y fuel' pre' rest'
    assume "y \<in> set xs" "length (bencoding y) \<le> fuel'"
      "length (pre' @ bencoding y @ rest') < (9223372036854775808::nat)"
    then show "parseValue fuel' (pre' @ bencoding y @ rest') (length pre')
        = Ok (stored y) (length pre' + length (bencoding y))"
      by (intro Cons.prems(3)) simp_all
  qed
  have "parseList (Suc f) data (length pre) acc
      = Ok (acc @ map stored (x # xs)) (length pre + length (concat (map bencoding (x # xs))) + 1)"
    using lt ch c v r by (simp add: tail_def)
  then show ?case by (simp add: fuel data_def)
qed

lemma parseDict_entries:
  assumes IH: "\<And>k x fuel pre rest. (k, x) \<in> set d \<Longrightarrow> length (bencoding x) \<le> fuel \<Longrightarrow>
      length (pre @ bencoding x @ rest) < (9223372036854775808::nat) \<Longrightarrow>
      parseValue fuel (pre @ bencoding x @ rest) (length pre)
        = Ok (stored x) (length pre + length (bencoding x))"
  shows "length (concat (map (\<lambda>(k, v). encodeString k @ bencoding v) d)) < fuel \<Longrightarrow>
     length (pre @ concat (map (\<lambda>(k, v). encodeString k @ bencoding v) d) @ CHR ''e'' # rest)
       < (9223372036854775808::nat) \<Longrightarrow>
     parseDict fuel (pre @ concat (map (\<lambda>(k, v). encodeString k @ bencoding v) d) @ CHR ''e'' # rest)
         (length pre) acc
       = Ok (fold (\<lambda>(k, v) m. map_assign k (stored v) m) d acc)
            (length pre + length (concat (map (\<lambda>(k, v). encodeString k @ bencoding v) d)) + 1)"
  using IH
proof (induction d arbitrary: fuel pre acc)
  case Nil
  then obtain f where fuel: "fuel = Suc f" by (cases fuel) auto
  show ?case unfolding fuel by simp
next
  case (Cons e es)
  obtain k x where e: "e = (k, x)" by (cases e)
  from Cons.prems(1) obtain f where fuel: "fuel = Suc f" by (cases fuel) auto
  define tail where "tail = concat (map (\<lambda>(k, v). encodeString k @ bencoding v) es)"
  define data where
    "data = pre @ concat (map (\<lambda>(k, v). encodeString k @ bencoding v) (e # es)) @ CHR ''e'' # rest"
  obtain c cs where ek: "encodeString k = c # cs" and cd: "isdigit c"
    using encodeString_hd[of k] by blast
  have c: "c \<noteq> CHR ''e''" using isdigit_not_special[OF cd] by simp
  have d0: "data = pre @ encodeString k @ (bencoding x @ tail @ CHR ''e'' # rest)"
    by (simp add: data_def tail_def e)
  have d1: "data = (pre @ encodeString k) @ bencoding x @ (tail @ CHR ''e'' # rest)"
    by (simp add: data_def tail_def e)
  have d2: "data = (pre @ encodeString k @ bencoding x) @ tail @ CHR ''e'' # rest"
    by (simp add: data_def tail_def e)
  have d3: "data = pre @ c # (cs @ bencoding x @ tail @ CHR ''e'' # rest)"
    by (simp add: d0 ek)
  have small: "length data < (9223372036854775808::nat)" using Cons.prems(2) by (simp add: data_def)
  have lt: "length pre < length data" by (simp add: d3)
  have ch: "data ! length pre = c" unfolding d3 by (rule nth_at_prefix) simp
  have fx: "length (bencoding x) \<le> f" and fxs: "length tail < f"
    using Cons.prems(1) by (simp_all add: fuel tail_def e ek)
  have small0: "length (pre @ encodeString k @ (bencoding x @ tail @ CHR ''e'' # rest)) < (9223372036854775808::nat)"
    using small unfolding d0 .
  have key: "parseString data (length pre) = Ok k (length pre + length (encodeString k))"
    unfolding d0 by (rule parseString_bencoding[OF small0])
  have small1: "length ((pre @ encodeString k) @ bencoding x @ (tail @ CHR ''e'' # rest)) < (9223372036854775808::nat)"
    using small unfolding d1 .
  have v: "parseValue f data (length (pre @ encodeString k))
             = Ok (stored x) (length (pre @ encodeString k) + length (bencoding x))"
    unfolding d1 by (rule Cons.prems(3)[of k, OF _ fx small1]) (simp add: e)
  have r: "parseDict f data (length (pre @ encodeString k @ bencoding x)) (map_assign k (stored x) acc)
      = Ok (fold (\<lambda>(k, v) m. map_assign k (stored v) m) es (map_assign k (stored x) acc))
           (length (pre @ encodeString k @ bencoding x) + length tail + 1)"
    unfolding d2 tail_def
  proof (rule Cons.IH)
    show "length (concat (map (\<lambda>(k, v). encodeString k @ bencoding v) es)) < f"
      using fxs by (simp add: tail_def)
    show "length ((pre @ encodeString k @ bencoding x)
            @ concat (map (\<lambda>(k, v). encodeString k @ bencoding v) es) @ CHR ''e'' # rest) < (9223372036854775808::nat)"
      using small by (simp add: d2 tail_def)
    fix k' y fuel' pre' rest'
    assume "(k', y) \<in> set es" "length (bencoding y) \<le> fuel'"
      "length (pre' @ bencoding y @ rest') < (9223372036854775808::nat)"
    then show "parseValue fuel' (pre' @ bencoding y @ rest') (length pre')
        = Ok (stored y) (length pre' + length (bencoding y))"
      by (intro Cons.prems(3)[of k']) simp_all
  qed
  have "parseDict (Suc f) data (length pre) acc
      = Ok (fold (\<lambda>(k, v) m. map_assign k (stored v) m) (e # es) acc)
           (length pre + length (concat (map (\<lambda>(k, v). encodeString k @ bencoding v) (e # es))) + 1)"
    using lt ch c key v r by (simp add: tail_def e add.assoc)
  then show ?case by (simp add: fuel data_def)
qed

lemma parseValue_bencoding:
  "length (bencoding t) \<le> fuel \<Longrightarrow> length (pre @ bencoding t @ rest) < (9223372036854775808::nat) \<Longrightarrow>
   parseValue fuel (pre @ bencoding t @ rest) (length pre)
     = Ok (stored t) (length pre + length (bencoding t))"
proof (induction t arbitrary: fuel pre rest)
  case (BInt w)
  then obtain f where fuel: "fuel = Suc f" by (cases fuel) (auto simp: encodeInt_def)
  have ch: "(pre @ bencoding (BInt w) @ rest) ! length pre = CHR ''i''"
    by (simp add: encodeInt_def nth_append)
  show ?case
    unfolding fuel using ch parseInt_bencoding[of pre w rest]
    by (simp add: encodeInt_def)
next
  case (BString s)
  obtain c cs where es: "encodeString s = c # cs" and cd: "isdigit c"
    using encodeString_hd[of s] by blast
  from BString obtain f where fuel: "fuel = Suc f" by (cases fuel) (auto simp: es)
  have ch: "(pre @ bencoding (BString s) @ rest) ! length pre = c"
    by (simp add: es nth_append)
  note sp = isdigit_not_special[OF cd]
  show ?case
    unfolding fuel using ch sp cd parseString_bencoding[of pre s rest] BString.prems(2)
    by (simp add: es)
next
  case (BList l)
  from BList.prems(1) obtain f where fuel: "fuel = Suc f" by (cases fuel) auto
  define body where "body = concat (map bencoding l)"
  define data where "data = pre @ bencoding (BList l) @ rest"
  have d1: "data = (pre @ ''l'') @ body @ CHR ''e'' # rest"
    by (simp add: data_def body_def)
  have d2: "data = pre @ CHR ''l'' # (body @ CHR ''e'' # rest)"
    by (simp add: data_def body_def)
  have small: "length data < (9223372036854775808::nat)" using BList.prems(2) by (simp add: data_def)
  have lt: "length pre < length data" by (simp add: d2)
  have ch: "data ! length pre = CHR ''l''" unfolding d2 by (rule nth_at_prefix) simp
  have r: "parseList f data (length (pre @ ''l'')) []
         = Ok ([] @ map stored l) (length (pre @ ''l'') + length body + 1)"
    unfolding d1 body_def
  proof (rule parseList_items)
    show "length (concat (map bencoding l)) < f"
      using BList.prems(1) by (simp add: fuel)
    show "length ((pre @ ''l'') @ concat (map bencoding l) @ CHR ''e'' # rest) < (9223372036854775808::nat)"
      using small by (simp add: d1 body_def)
    fix x fuel' pre' rest'
    assume "x \<in> set l" "length (bencoding x) \<le> fuel'"
      "length (pre' @ bencoding x @ rest') < (9223372036854775808::nat)"
    then show "parseValue fuel' (pre' @ bencoding x @ rest') (length pre')
        = Ok (stored x) (length pre' + length (bencoding x))"
      by (rule BList.IH)
  qed
  have "parseValue (Suc f) data (length pre)
      = Ok (stored (BList l)) (length pre + length (bencoding (BList l)))"
    using lt ch r by (simp add: body_def)
  then show ?case by (simp add: fuel data_def)
next
  case (BDict d)
  from BDict.prems(1) obtain f where fuel: "fuel = Suc f" by (cases fuel) auto
  define body where "body = concat (map (\<lambda>(k, v). encodeString k @ bencoding v) d)"
  define data where "data = pre @ bencoding (BDict d) @ rest"
  have d1: "data = (pre @ ''d'') @ body @ CHR ''e'' # rest"
    by (simp add: data_def body_def)
  have d2: "data = pre @ CHR ''d'' # (body @ CHR ''e'' # rest)"
    by (simp add: data_def body_def)
  have small: "length data < (9223372036854775808::nat)" using BDict.prems(2) by (simp add: data_def)
  have lt: "length pre < length data" by (simp add: d2)
  have ch: "data ! length pre = CHR ''d''" unfolding d2 by (rule nth_at_prefix) simp
  have r: "parseDict f data (length (pre @ ''d'')) []
         = Ok (fold (\<lambda>(k, v) m. map_assign k (stored v) m) d [])
              (length (pre @ ''d'') + length body + 1)"
    unfolding d1 body_def
  proof (rule parseDict_entries)
    show "length (concat (map (\<lambda>(k, v). encodeString k @ bencoding v) d)) < f"
      using BDict.prems(1) by (simp add: fuel)
    show "length ((pre @ ''d'') @ concat (map (\<lambda>(k, v). encodeString k @ bencoding v) d)
             @ CHR ''e'' # rest) < (9223372036854775808::nat)"
      using small by (simp add: d1 body_def)
    fix k x fuel' pre' rest'
    assume "(k, x) \<in> set d" "length (bencoding x) \<le> fuel'"
      "length (pre' @ bencoding x @ rest') < (9223372036854775808::nat)"
    then show "parseValue fuel' (pre' @ bencoding x @ rest') (length pre')
        = Ok (stored x) (length pre' + length (bencoding x))"
      by (intro BDict.IH[of "(k, x)" x]) simp_all
  qed
  have "parseValue (Suc f) data (length pre)
      = Ok (stored (BDict d)) (length pre + length (bencoding (BDict d)))"
    using lt ch r by (simp add: body_def)
  then show ?case by (simp add: fuel data_def)
qed

lemma map_assign_append:
  "\<forall>k' \<in> set (map fst m). k' < k \<Longrightarrow> map_assign k v m = m @ [(k, v)]"
  by (induction m) auto

lemma map_insert_append:
  "\<forall>k' \<in> set (map fst m). k' < k \<Longrightarrow> map_insert k v m = m @ [(k, v)]"
  by (induction m) auto

lemma fold_map_assign_sorted:
  "sorted_wrt (<) (map fst (m @ d)) \<Longrightarrow>
   fold (\<lambda>(k, v) m. map_assign k (f v) m) d m = m @ map (\<lambda>(k, v). (k, f v)) d"
proof (induction d arbitrary: m)
  case Nil
  then show ?case by simp
next
  case (Cons e d)
  obtain k v where e: "e = (k, v)" by (cases e)
  have lt: "\<forall>k' \<in> set (map fst m). k' < k"
    using Cons.prems by (auto simp: e sorted_wrt_append)
  have s: "sorted_wrt (<) (map fst ((m @ [(k, f v)]) @ d))"
    using Cons.prems by (simp add: e)
  show ?case
    using Cons.IH[OF s] by (simp add: e map_assign_append[OF lt])
qed

lemma fold_map_insert_sorted:
  "sorted_wrt (<) (map fst (m @ d)) \<Longrightarrow>
   fold (\<lambda>(k, v) m. map_insert k v m) d m = m @ d"
proof (induction d arbitrary: m)
  case Nil
  then show ?case by simp
next
  case (Cons e d)
  obtain k v where e: "e = (k, v)" by (cases e)
  have lt: "\<forall>k' \<in> set (map fst m). k' < k"
    using Cons.prems by (auto simp: e sorted_wrt_append)
  have s: "sorted_wrt (<) (map fst ((m @ [(k, v)]) @ d))"
    using Cons.prems by (simp add: e)
  show ?case
    using Cons.IH[OF s] by (simp add: e map_insert_append[OF lt])
qed

lemma map_from_range_sorted:
  "sorted_wrt (<) (map fst d) \<Longrightarrow> map_from_range d = d"
  using fold_map_insert_sorted[of "[]" d] by (simp add: map_from_range_def)

lemma stored_sorted_keys: "sorted_keys t \<Longrightarrow> stored t = t"
proof (induction t)
  case (BList l)
  then show ?case by (simp add: map_idI)
next
  case (BDict d)
  have "map (\<lambda>(k, v). (k, stored v)) d = d"
    using BDict by (intro map_idI) (auto split: prod.splits)
  then show ?case
    using BDict.prems fold_map_assign_sorted[of "[]" d stored] by simp
qed simp_all

lemma encode_sorted_keys: "sorted_keys t \<Longrightarrow> encode t = bencoding t"
proof (induction t)
  case (BDict d)
  have eq: "map (\<lambda>(k, v). encodeString k @ encode v) d
        = map (\<lambda>(k, v). encodeString k @ bencoding v) d"
    using BDict by (intro map_cong) (auto split: prod.splits)
  show ?case using BDict.prems by (simp add: map_from_range_sorted eq)
qed (simp_all cong: map_cong)

lemma map_of_map_assign: "map_of (map_assign k v m) = (map_of m)(k \<mapsto> v)"
  by (induction m) (auto simp: fun_eq_iff)

lemma keys_map_assign: "set (map fst (map_assign k v m)) = insert k (set (map fst m))"
proof (induction m)
  case Nil
  then show ?case by simp
next
  case (Cons e m)
  obtain k' v' where e: "e = (k', v')" by (cases e)
  show ?case
    using Cons.IH by (cases "k < k'"; cases "k = k'"; simp add: e insert_commute)
qed

lemma sorted_map_assign:
  "sorted_wrt (<) (map fst m) \<Longrightarrow> sorted_wrt (<) (map fst (map_assign k v m))"
proof (induction m)
  case Nil
  then show ?case by simp
next
  case (Cons e m)
  obtain k' v' where e: "e = (k', v')" by (cases e)
  have "\<forall>x \<in> set (map fst (map_assign k v m)). k' < x" if "k' < k"
    using Cons.prems that unfolding keys_map_assign by (auto simp: e)
  then show ?case using Cons by (auto simp: e)
qed

lemma fold_map_assign_sorted_result:
  "sorted_wrt (<) (map fst m) \<Longrightarrow>
   sorted_wrt (<) (map fst (fold (\<lambda>(k, v) m. map_assign k (f v) m) d m))"
  by (induction d arbitrary: m) (auto simp: sorted_map_assign)

lemma map_of_fold_map_assign:
  "map_of (fold (\<lambda>(k, v) m. map_assign k (f v) m) d m)
     = map_of m ++ map_of (rev (map (\<lambda>(k, v). (k, f v)) d))"
proof (induction d arbitrary: m)
  case Nil
  then show ?case by simp
next
  case (Cons e d)
  obtain k v where e: "e = (k, v)" by (cases e)
  show ?case
    by (simp add: e Cons.IH map_of_map_assign map_add_upd_left fun_eq_iff map_add_def
          split: option.splits)
qed

lemma fuel_step:
  "(parseValue f d p \<noteq> OutOfFuel \<longrightarrow> parseValue (Suc f) d p = parseValue f d p)
   \<and> (parseList f d p l \<noteq> OutOfFuel \<longrightarrow> parseList (Suc f) d p l = parseList f d p l)
   \<and> (parseDict f d p m \<noteq> OutOfFuel \<longrightarrow> parseDict (Suc f) d p m = parseDict f d p m)"
proof (induction f arbitrary: p l m)
  case 0
  then show ?case by simp
next
  case (Suc f)
  have v: "parseValue (Suc f) d q = parseValue f d q" if "parseValue f d q \<noteq> OutOfFuel" for q
    using Suc that by blast
  have l: "parseList (Suc f) d q x = parseList f d q x" if "parseList f d q x \<noteq> OutOfFuel" for q x
    using Suc that by blast
  have m: "parseDict (Suc f) d q x = parseDict f d q x" if "parseDict f d q x \<noteq> OutOfFuel" for q x
    using Suc that by blast
  have 1: "parseValue (Suc (Suc f)) d p = parseValue (Suc f) d p"
    if "parseValue (Suc f) d p \<noteq> OutOfFuel"
    using that l[of "p + 1" "[]"] m[of "p + 1" "[]"]
    by (simp only: parseValue.simps(2))
       (auto simp del: parseValue.simps parseList.simps parseDict.simps
          split: presult.splits if_splits)
  have 2: "parseList (Suc (Suc f)) d p l = parseList (Suc f) d p l"
    if "parseList (Suc f) d p l \<noteq> OutOfFuel"
  proof (cases "parseValue f d p")
    case (Ok x q)
    then show ?thesis using that v[of p] l[of q "l @ [x]"]
      by (simp only: parseList.simps(2))
         (auto simp del: parseValue.simps parseList.simps parseDict.simps split: if_splits)
  next
    case (Err e)
    then show ?thesis using that v[of p]
      by (simp only: parseList.simps(2))
         (auto simp del: parseValue.simps parseList.simps parseDict.simps split: if_splits)
  next
    case OutOfFuel
    then show ?thesis using that
      by (simp only: parseList.simps(2))
         (auto simp del: parseValue.simps parseList.simps parseDict.simps split: if_splits)
  qed
  have 3: "parseDict (Suc (Suc f)) d p m = parseDict (Suc f) d p m"
    if "parseDict (Suc f) d p m \<noteq> OutOfFuel"
  proof (cases "parseString d p")
    case (Ok key q)
    show ?thesis
    proof (cases "parseValue f d q")
      case (Ok x q')
      then show ?thesis using that v[of q] \<open>parseString d p = Ok key q\<close>
          m[of q' "map_assign key x m"]
        by (simp only: parseDict.simps(2))
           (auto simp del: parseValue.simps parseList.simps parseDict.simps split: if_splits)
    next
      case (Err e)
      then show ?thesis using that v[of q] \<open>parseString d p = Ok key q\<close>
        by (simp only: parseDict.simps(2))
           (auto simp del: parseValue.simps parseList.simps parseDict.simps split: if_splits)
    next
      case OutOfFuel
      then show ?thesis using that \<open>parseString d p = Ok key q\<close>
        by (simp only: parseDict.simps(2))
           (auto simp del: parseValue.simps parseList.simps parseDict.simps split: if_splits)
    qed
  next
    case (Err e)
    then show ?thesis using that
      by (simp only: parseDict.simps(2))
         (auto simp del: parseValue.simps parseList.simps parseDict.simps split: if_splits)
  next
    case OutOfFuel
    then show ?thesis using that
      by (simp only: parseDict.simps(2))
         (auto simp del: parseValue.simps parseList.simps parseDict.simps split: if_splits)
  qed
  show ?case using 1 2 3 by blast
qed

lemma parse_fuel_mono:
  "parse f d \<noteq> OutOfFuel \<Longrightarrow> parse (f + n) d = parse f d"
proof (induction n)
  case 0
  then show ?case by simp
next
  case (Suc n)
  then show ?case using fuel_step[of "f + n" d 0] by (simp add: parse_def)
qed

lemma parse_never_ok:
  assumes "parse c d = Err e"
  shows "parse fuel d \<noteq> Ok v p"
proof
  assume ok: "parse fuel d = Ok v p"
  have "parse (fuel + c) d = Ok v p" using parse_fuel_mono[of fuel d c] ok by simp
  moreover have "parse (c + fuel) d = Err e" using parse_fuel_mono[of c d fuel] assms by simp
  ultimately show False by (simp add: add.commute)
qed

lemmas parse_eval = parse_def parseInt_def parseString_def stoll_def find_char_def substr_def
  isdigit_def isspace_def digits_value_def digit_value_def Let_def

lemmas weak_congs = presult.case_cong_weak option.case_cong_weak sum.case_cong_weak

lemma rejectsI:
  assumes "\<And>n. parse (Suc (Suc (Suc n))) d = Err e"
  shows "rejects d e"
proof -
  have "parse fuel d = Err e" if "3 \<le> fuel" for fuel
  proof -
    have "fuel = Suc (Suc (Suc (fuel - 3)))" using that by simp
    then show ?thesis using assms[of "fuel - 3"] by simp
  qed
  moreover have "parse fuel d \<noteq> Ok v p" for fuel v p
    using parse_never_ok[OF assms[of 0]] .
  ultimately show ?thesis by (simp add: rejects_def)
qed

lemma reject_empty: "parse (Suc n) '''' = Err UnexpectedEnd"
  by (simp add: parse_eval cong: weak_congs)

lemma reject_non_numeric: "parse (Suc n) ''iXe'' = Err InvalidIntegerValue"
  by (simp add: parse_eval cong: weak_congs)

lemma reject_short_string: "parse (Suc n) ''2:a'' = Err StringLengthExceedsInput"
  by (simp add: parse_eval cong: weak_congs)

lemma reject_open_list: "parse (Suc (Suc (Suc n))) ''li1e'' = Err InvalidListFormat"
  by (simp add: parse_eval cong: weak_congs)

lemma reject_open_dict: "parse (Suc (Suc (Suc n))) ''d1:ai1e'' = Err InvalidDictFormat"
  by (simp add: parse_eval cong: weak_congs)

lemma reject_int_key: "parse (Suc (Suc n)) ''di1ei2ee'' = Err InvalidStringFormat"
  by (simp add: parse_eval cong: weak_congs)

lemma accept_leading_zero: "parse (Suc n) ''i01e'' = Ok (BInt 1) 4"
  by (simp add: parse_eval cong: weak_congs)

lemma accept_negative_zero: "parse (Suc n) ''i-0e'' = Ok (BInt 0) 4"
  by (simp add: parse_eval cong: weak_congs)

lemma accept_negative_length:
  "parse (Suc (Suc (Suc (Suc n)))) ''d-2:abe'' = Ok (BDict [(''abe'', BString ''ab'')]) 7"
  by (simp add: parse_eval cong: weak_congs)

lemma reject_int_overflow:
  assumes "ds \<noteq> []" and "\<forall>c \<in> set ds. isdigit c"
    and "9223372036854775807 < int (digits_value ds)"
  shows "parse (Suc n) (CHR ''i'' # ds @ CHR ''e'' # rest) = Err InvalidIntegerValue"
proof -
  have e: "CHR ''e'' \<notin> set ds" using assms(2) isdigit_not_special[of "CHR ''e''"] by auto
  have f: "find_char CHR ''e'' (''i'' @ ds @ CHR ''e'' # rest) (0 + 1) = Some (length ''i'' + length ds)"
    by (rule find_char_here[OF e]) simp
  have s: "substr (''i'' @ ds @ CHR ''e'' # rest) (0 + 1) (int (length ds)) = ds"
    by (rule substr_here) simp_all
  have st: "stoll ds = Inl StollOutOfRange" using stoll_digits[OF assms(1,2)] assms(3) by simp
  have "parseInt (CHR ''i'' # ds @ CHR ''e'' # rest) 0 = Err InvalidIntegerValue"
    using f s st by (simp add: parseInt_def)
  then show ?thesis by (simp add: parse_def)
qed

lemma reject_int_underflow:
  assumes "ds \<noteq> []" and "\<forall>c \<in> set ds. isdigit c"
    and "9223372036854775808 < int (digits_value ds)"
  shows "parse (Suc n) (CHR ''i'' # CHR ''-'' # ds @ CHR ''e'' # rest) = Err InvalidIntegerValue"
proof -
  have e: "CHR ''e'' \<notin> set (CHR ''-'' # ds)"
    using assms(2) isdigit_not_special[of "CHR ''e''"] by auto
  have f: "find_char CHR ''e'' (''i'' @ (CHR ''-'' # ds) @ CHR ''e'' # rest) (0 + 1)
            = Some (length ''i'' + length (CHR ''-'' # ds))"
    by (rule find_char_here[OF e]) simp
  have s: "substr (''i'' @ (CHR ''-'' # ds) @ CHR ''e'' # rest) (0 + 1) (int (length (CHR ''-'' # ds)))
            = CHR ''-'' # ds"
    by (rule substr_here) simp_all
  have st: "stoll (CHR ''-'' # ds) = Inl StollOutOfRange"
    using stoll_minus_digits[OF assms(1,2)] assms(3) by simp
  have "parseInt (CHR ''i'' # CHR ''-'' # ds @ CHR ''e'' # rest) 0 = Err InvalidIntegerValue"
    using f s st by (simp add: parseInt_def)
  then show ?thesis by (simp add: parse_def)
qed

lemma reject_length_too_long:
  assumes "ds \<noteq> []" and "\<forall>c \<in> set ds. isdigit c"
    and "length body < digits_value ds"
    and "length (ds @ CHR '':'' # body) < 9223372036854775808"
  shows "parse (Suc n) (ds @ CHR '':'' # body)
           = Err (if 9223372036854775807 < int (digits_value ds) then StollOutOfRange
                  else StringLengthExceedsInput)"
proof -
  define data where "data = ds @ CHR '':'' # body"
  obtain c cs where ds: "ds = c # cs" using assms(1) by (cases ds) auto
  have cd: "isdigit c" using assms(2) ds by simp
  note sp = isdigit_not_special[OF cd]
  have ch: "data ! 0 = c" by (simp add: data_def ds)
  have ne: "\<not> length data \<le> 0" by (simp add: data_def)
  have col: "CHR '':'' \<notin> set ds" using assms(2) isdigit_not_special[of "CHR '':''"] by auto
  have f: "find_char CHR '':'' ([] @ ds @ CHR '':'' # body) 0 = Some (length ([] :: string) + length ds)"
    by (rule find_char_here[OF col]) simp
  have s: "substr ([] @ ds @ CHR '':'' # body) 0 (int (length ds)) = ds"
    by (rule substr_here) simp_all
  note st = stoll_digits[OF assms(1,2)]
  have "parseString data 0
          = Err (if 9223372036854775807 < int (digits_value ds) then StollOutOfRange
                 else StringLengthExceedsInput)"
  proof (cases "9223372036854775807 < int (digits_value ds)")
    case True
    then show ?thesis using f s st by (simp add: parseString_def data_def)
  next
    case False
    have m1: "int (digits_value ds) mod 18446744073709551616 = int (digits_value ds)"
      using False by simp
    have m2: "(int (length ds + 1) + int (digits_value ds)) mod 18446744073709551616
            = int (length ds + 1) + int (digits_value ds)"
      using False assms(4) by simp
    have gt: "int (length ds + 1) + int (digits_value ds) > int (length data)"
      using assms(3) by (simp add: data_def)
    show ?thesis
      using f s st False gt m2 by (simp add: parseString_def data_def m1 Let_def)
  qed
  then have "parseValue (Suc n) data 0
          = Err (if 9223372036854775807 < int (digits_value ds) then StollOutOfRange
                 else StringLengthExceedsInput)"
    using ch ne sp cd by (simp del: One_nat_def)
  then show ?thesis by (simp add: parse_def data_def)
qed

lemma parseInt_text:
  assumes "CHR ''e'' \<notin> set s"
  shows "parseInt (pre @ CHR ''i'' # s @ CHR ''e'' # rest) (length pre)
           = (case stoll s of
                Inl x \<Rightarrow> Err InvalidIntegerValue
              | Inr v \<Rightarrow> Ok (word_of_int v) (length pre + length s + 2))"
proof -
  have data: "pre @ CHR ''i'' # s @ CHR ''e'' # rest = (pre @ ''i'') @ s @ CHR ''e'' # rest"
    by simp
  have f: "find_char CHR ''e'' ((pre @ ''i'') @ s @ CHR ''e'' # rest) (length pre + 1)
             = Some (length (pre @ ''i'') + length s)"
    by (rule find_char_here[OF assms]) simp
  have t: "substr ((pre @ ''i'') @ s @ CHR ''e'' # rest) (length pre + 1)
             (int (length (pre @ ''i'') + length s) - int (length pre + 1)) = s"
    by (rule substr_here) simp_all
  show ?thesis
    unfolding data parseInt_def Let_def f option.case t
    by (simp split: sum.splits)
qed

lemma parseValue_int_text:
  assumes "CHR ''e'' \<notin> set s"
  shows "parseValue (Suc n) (pre @ CHR ''i'' # s @ CHR ''e'' # rest) (length pre)
           = (case stoll s of
                Inl x \<Rightarrow> Err InvalidIntegerValue
              | Inr v \<Rightarrow> Ok (BInt (word_of_int v)) (length pre + length s + 2))"
proof -
  define data where "data = pre @ CHR ''i'' # s @ CHR ''e'' # rest"
  have ch: "data ! length pre = CHR ''i''" unfolding data_def by (rule nth_at_prefix) simp
  have lt: "\<not> length data \<le> length pre" by (simp add: data_def)
  have "parseValue (Suc n) data (length pre)
           = (case stoll s of
                Inl x \<Rightarrow> Err InvalidIntegerValue
              | Inr v \<Rightarrow> Ok (BInt (word_of_int v)) (length pre + length s + 2))"
    using ch lt parseInt_text[OF assms, of pre rest, folded data_def]
    by (simp split: sum.splits)
  then show ?thesis by (simp add: data_def)
qed

lemma parse_int_text:
  assumes "CHR ''e'' \<notin> set s"
  shows "parse (Suc n) (CHR ''i'' # s @ CHR ''e'' # rest)
           = (case stoll s of
                Inl x \<Rightarrow> Err InvalidIntegerValue
              | Inr v \<Rightarrow> Ok (BInt (word_of_int v)) (length s + 2))"
  using parseValue_int_text[OF assms, of n "[]" rest]
  by (cases "stoll s") (simp_all add: parse_def del: parseValue.simps)

lemma parseValue_minus:
  "pos < length data \<Longrightarrow> data ! pos = CHR ''-'' \<Longrightarrow>
   parseValue (Suc n) data pos = Err InvalidBencodedFormat"
  by (simp add: isdigit_def)

lemma reject_minus_top: "parse (Suc n) (CHR ''-'' # rest) = Err InvalidBencodedFormat"
  by (simp add: parse_def isdigit_def)

lemma reject_minus_in_list: "parse (Suc (Suc (Suc n))) ''l-2:abe'' = Err InvalidBencodedFormat"
  by (simp add: parse_eval cong: weak_congs)

lemma reject_minus_in_dict: "parse (Suc (Suc (Suc n))) ''d1:a-2:abe'' = Err InvalidBencodedFormat"
  by (simp add: parse_eval cong: weak_congs)

lemma accept_trailing_text:
  "parse (Suc n) ''i1Xe'' = Ok (BInt 1) 4"
  "parse (Suc n) ''i12abce'' = Ok (BInt 12) 7"
  "parse (Suc n) ''i 5e'' = Ok (BInt 5) 4"
  by (simp_all add: parse_eval cong: weak_congs)

lemma stoll_invalid_iff:
  "stoll s = Inl StollInvalidArgument \<longleftrightarrow>
     takeWhile isdigit
       (if dropWhile isspace s \<noteq> []
           \<and> (hd (dropWhile isspace s) = CHR ''-'' \<or> hd (dropWhile isspace s) = CHR ''+'')
        then tl (dropWhile isspace s) else dropWhile isspace s) = []"
  by (simp add: stoll_def Let_def)

lemma too_long_at:
  assumes "ds \<noteq> []" and "\<forall>c \<in> set ds. isdigit c"
    and "length body < digits_value ds"
    and "length (pre @ ds @ CHR '':'' # body) < 9223372036854775808"
  shows "parseValue (Suc n) (pre @ ds @ CHR '':'' # body) (length pre)
           = Err (if 9223372036854775807 < int (digits_value ds) then StollOutOfRange
                  else StringLengthExceedsInput)"
proof -
  define data where "data = pre @ ds @ CHR '':'' # body"
  obtain c cs where ds: "ds = c # cs" using assms(1) by (cases ds) auto
  have cd: "isdigit c" using assms(2) ds by simp
  note sp = isdigit_not_special[OF cd]
  have ch: "data ! length pre = c" by (simp add: data_def ds nth_append)
  have ne: "\<not> length data \<le> length pre" by (simp add: data_def)
  have col: "CHR '':'' \<notin> set ds" using assms(2) isdigit_not_special[of "CHR '':''"] by auto
  have f: "find_char CHR '':'' data (length pre) = Some (length pre + length ds)"
    unfolding data_def by (rule find_char_here[OF col]) simp
  have s: "substr data (length pre) (int (length pre + length ds) - int (length pre)) = ds"
    unfolding data_def by (rule substr_here) simp_all
  note st = stoll_digits[OF assms(1,2)]
  have "parseString data (length pre)
          = Err (if 9223372036854775807 < int (digits_value ds) then StollOutOfRange
                 else StringLengthExceedsInput)"
  proof (cases "9223372036854775807 < int (digits_value ds)")
    case True
    then show ?thesis using f s st by (simp add: parseString_def)
  next
    case False
    have m1: "int (digits_value ds) mod 18446744073709551616 = int (digits_value ds)"
      using False by simp
    have m2: "(int (length pre + length ds + 1) + int (digits_value ds)) mod 18446744073709551616
            = int (length pre + length ds + 1) + int (digits_value ds)"
      using False assms(4) by simp
    have gt: "int (length pre + length ds + 1) + int (digits_value ds) > int (length data)"
      using assms(3) by (simp add: data_def)
    show ?thesis
      using f s st False gt m2 by (simp add: parseString_def m1 Let_def)
  qed
  then have "parseValue (Suc n) data (length pre)
          = Err (if 9223372036854775807 < int (digits_value ds) then StollOutOfRange
                 else StringLengthExceedsInput)"
    using ch ne sp cd by (simp del: One_nat_def)
  then show ?thesis by (simp add: data_def)
qed

text \<open>
  C3, as the code has it. Decoding fails on the empty input, on \<open>2:a\<close>, \<open>li1e\<close>,
  \<open>d1:ai1e\<close> and \<open>di1ei2ee\<close>; on every integer \<open>i<text>e\<close> whose text \<open>std::stoll\<close>
  rejects, that is a text with no digit after optional white space and an optional
  sign (such as \<open>iXe\<close>) or a value outside \<open>int64\<close>; on every byte string whose
  declared length exceeds the bytes that follow, at the top level and at any
  position where a value is parsed; and wherever a value is expected and a minus
  sign stands (a negative declared length: \<open>-2:ab\<close>, \<open>l-2:abe\<close>, \<open>d1:a-2:abe\<close>). An integer
  text that \<open>std::stoll\<close> accepts decodes to the value of its leading digits, whatever
  follows them. Inputs are below \<open>2^63\<close> bytes, as every \<open>std::string\<close> is.
\<close>

theorem decode_rejects_malformed:
  "rejects '''' UnexpectedEnd
   \<and> rejects ''iXe'' InvalidIntegerValue
   \<and> rejects ''2:a'' StringLengthExceedsInput
   \<and> rejects ''li1e'' InvalidListFormat
   \<and> rejects ''d1:ai1e'' InvalidDictFormat
   \<and> rejects ''di1ei2ee'' InvalidStringFormat
   \<and> (ds \<noteq> [] \<and> (\<forall>c \<in> set ds. isdigit c) \<and> 9223372036854775807 < int (digits_value ds)
        \<longrightarrow> rejects (CHR ''i'' # ds @ CHR ''e'' # rest) InvalidIntegerValue)
   \<and> (ds \<noteq> [] \<and> (\<forall>c \<in> set ds. isdigit c) \<and> 9223372036854775808 < int (digits_value ds)
        \<longrightarrow> rejects (CHR ''i'' # CHR ''-'' # ds @ CHR ''e'' # rest) InvalidIntegerValue)
   \<and> (ds \<noteq> [] \<and> (\<forall>c \<in> set ds. isdigit c) \<and> length body < digits_value ds
        \<and> length (ds @ CHR '':'' # body) < 9223372036854775808
        \<longrightarrow> rejects (ds @ CHR '':'' # body)
              (if 9223372036854775807 < int (digits_value ds) then StollOutOfRange
               else StringLengthExceedsInput))
   \<and> (CHR ''e'' \<notin> set s \<and> stoll s = Inl x
        \<longrightarrow> rejects (CHR ''i'' # s @ CHR ''e'' # rest) InvalidIntegerValue)
   \<and> (CHR ''e'' \<notin> set t \<and> stoll t = Inr v
        \<longrightarrow> parse (Suc n) (CHR ''i'' # t @ CHR ''e'' # rest)
              = Ok (BInt (word_of_int v)) (length t + 2))
   \<and> (stoll s = Inl StollInvalidArgument \<longleftrightarrow>
        takeWhile isdigit
          (if dropWhile isspace s \<noteq> []
              \<and> (hd (dropWhile isspace s) = CHR ''-'' \<or> hd (dropWhile isspace s) = CHR ''+'')
           then tl (dropWhile isspace s) else dropWhile isspace s) = [])
   \<and> (ds \<noteq> [] \<and> (\<forall>c \<in> set ds. isdigit c) \<and> length body < digits_value ds
        \<and> length (pre @ ds @ CHR '':'' # body) < 9223372036854775808
        \<longrightarrow> parseValue (Suc n) (pre @ ds @ CHR '':'' # body) (length pre)
              = Err (if 9223372036854775807 < int (digits_value ds) then StollOutOfRange
                     else StringLengthExceedsInput))
   \<and> (pos < length data \<and> data ! pos = CHR ''-''
        \<longrightarrow> parseValue (Suc n) data pos = Err InvalidBencodedFormat)
   \<and> rejects (CHR ''-'' # rest) InvalidBencodedFormat
   \<and> rejects ''l-2:abe'' InvalidBencodedFormat
   \<and> rejects ''d1:a-2:abe'' InvalidBencodedFormat"
proof -
  have 1: "rejects '''' UnexpectedEnd" by (rule rejectsI) (rule reject_empty)
  have 2: "rejects ''iXe'' InvalidIntegerValue" by (rule rejectsI) (rule reject_non_numeric)
  have 3: "rejects ''2:a'' StringLengthExceedsInput" by (rule rejectsI) (rule reject_short_string)
  have 4: "rejects ''li1e'' InvalidListFormat" by (rule rejectsI) (rule reject_open_list)
  have 5: "rejects ''d1:ai1e'' InvalidDictFormat" by (rule rejectsI) (rule reject_open_dict)
  have 6: "rejects ''di1ei2ee'' InvalidStringFormat" by (rule rejectsI) (rule reject_int_key)
  have 7: "rejects (CHR ''i'' # ds @ CHR ''e'' # rest) InvalidIntegerValue"
    if "ds \<noteq> [] \<and> (\<forall>c \<in> set ds. isdigit c) \<and> 9223372036854775807 < int (digits_value ds)"
    using that by (intro rejectsI reject_int_overflow) simp_all
  have 8: "rejects (CHR ''i'' # CHR ''-'' # ds @ CHR ''e'' # rest) InvalidIntegerValue"
    if "ds \<noteq> [] \<and> (\<forall>c \<in> set ds. isdigit c) \<and> 9223372036854775808 < int (digits_value ds)"
    using that by (intro rejectsI reject_int_underflow) simp_all
  have 9: "rejects (ds @ CHR '':'' # body)
              (if 9223372036854775807 < int (digits_value ds) then StollOutOfRange
               else StringLengthExceedsInput)"
    if "ds \<noteq> [] \<and> (\<forall>c \<in> set ds. isdigit c) \<and> length body < digits_value ds
        \<and> length (ds @ CHR '':'' # body) < 9223372036854775808"
    using that by (intro rejectsI reject_length_too_long) simp_all
  have 10: "rejects (CHR ''i'' # s @ CHR ''e'' # rest) InvalidIntegerValue"
    if "CHR ''e'' \<notin> set s \<and> stoll s = Inl x"
  proof (rule rejectsI)
    fix m
    show "parse (Suc (Suc (Suc m))) (CHR ''i'' # s @ CHR ''e'' # rest) = Err InvalidIntegerValue"
      using that parse_int_text[of s "Suc (Suc m)" rest] by simp
  qed
  have 11: "parse (Suc n) (CHR ''i'' # t @ CHR ''e'' # rest)
              = Ok (BInt (word_of_int v)) (length t + 2)"
    if "CHR ''e'' \<notin> set t \<and> stoll t = Inr v"
    using that parse_int_text[of t n rest] by simp
  note 12 = stoll_invalid_iff[of s]
  have 13: "parseValue (Suc n) (pre @ ds @ CHR '':'' # body) (length pre)
              = Err (if 9223372036854775807 < int (digits_value ds) then StollOutOfRange
                     else StringLengthExceedsInput)"
    if "ds \<noteq> [] \<and> (\<forall>c \<in> set ds. isdigit c) \<and> length body < digits_value ds
        \<and> length (pre @ ds @ CHR '':'' # body) < 9223372036854775808"
    using that by (intro too_long_at) simp_all
  have 14: "parseValue (Suc n) data pos = Err InvalidBencodedFormat"
    if "pos < length data \<and> data ! pos = CHR ''-''"
    using that by (intro parseValue_minus) simp_all
  have 15: "rejects (CHR ''-'' # rest) InvalidBencodedFormat"
    by (rule rejectsI) (rule reject_minus_top)
  have 16: "rejects ''l-2:abe'' InvalidBencodedFormat"
    by (rule rejectsI) (rule reject_minus_in_list)
  have 17: "rejects ''d1:a-2:abe'' InvalidBencodedFormat"
    by (rule rejectsI) (rule reject_minus_in_dict)
  show ?thesis
    using 1 2 3 4 5 6 7 8 9 10 11 12 13 14 15 16 17 by blast
qed

theorem decode_rejects_malformed_witness:
  "parse 3 [] = Err UnexpectedEnd
   \<and> parse 3 ''li1e'' = Err InvalidListFormat
   \<and> parse 3 ''i9223372036854775809e'' = Err InvalidIntegerValue
   \<and> parse 3 ''i-9223372036854775809e'' = Err InvalidIntegerValue
   \<and> parse 3 ''9223372036854775809:abc'' = Err StollOutOfRange
   \<and> stoll ''X'' = Inl StollInvalidArgument
   \<and> parse 3 ''iXe'' = Err InvalidIntegerValue
   \<and> stoll ''01'' = Inr 1
   \<and> parse (Suc 0) ''i01e'' = Ok (BInt 1) 4
   \<and> parseValue (Suc 0) ''l9223372036854775809:abc'' 1 = Err StollOutOfRange
   \<and> parseValue (Suc 0) ''l-2:abe'' 1 = Err InvalidBencodedFormat
   \<and> parse 3 ''l-2:abe'' = Err InvalidBencodedFormat"
proof -
  have d: "''9223372036854775809'' \<noteq> []" "\<forall>c \<in> set ''9223372036854775809''. isdigit c"
    "digits_value ''9223372036854775809'' = 9223372036854775809"
    by (simp_all add: isdigit_def digits_value_def digit_value_def)
  have l: "length ''abc'' < digits_value ''9223372036854775809''"
    "length (''9223372036854775809'' @ CHR '':'' # ''abc'') < 9223372036854775808"
    "length (''l'' @ ''9223372036854775809'' @ CHR '':'' # ''abc'') < 9223372036854775808"
    by (simp_all add: d(3))
  have i: "CHR ''e'' \<notin> set ''X''" "stoll ''X'' = Inl StollInvalidArgument"
    "CHR ''e'' \<notin> set ''01''" "stoll ''01'' = Inr 1"
    by (simp_all add: stoll_def isspace_def isdigit_def digits_value_def digit_value_def)
  have m: "(1::nat) < length ''l-2:abe''" "''l-2:abe'' ! 1 = CHR ''-''"
    by simp_all
  show ?thesis
    using decode_rejects_malformed[where ds = "''9223372036854775809''" and rest = "[]"
        and body = "''abc''" and s = "''X''" and x = StollInvalidArgument and t = "''01''"
        and v = 1 and n = 0 and pre = "''l''" and data = "''l-2:abe''" and pos = 1] d l i m
    by (simp add: rejects_def del: parseValue.simps)
qed

text \<open>
  C3, as the claim words it, lists \<open>i01e\<close> and \<open>i-0e\<close>, and non-numeric integers and
  negative declared lengths without exception. The integer text goes to
  \<open>std::stoll\<close> unchecked, so \<open>i01e\<close> decodes to 1, \<open>i-0e\<close> to 0, \<open>i1Xe\<close> to 1,
  \<open>i12abce\<close> to 12 and \<open>i 5e\<close> to 5; and \<open>d-2:abe\<close>, whose key declares the length
  \<open>-2\<close>, decodes to a dictionary.
\<close>

theorem decode_accepts_noncanonical_integers:
  "parse (Suc 0) ''i01e'' = Ok (BInt 1) 4
   \<and> parse (Suc 0) ''i-0e'' = Ok (BInt 0) 4
   \<and> parse (Suc 0) ''i1Xe'' = Ok (BInt 1) 4
   \<and> parse (Suc 0) ''i12abce'' = Ok (BInt 12) 7
   \<and> parse (Suc 0) ''i 5e'' = Ok (BInt 5) 4
   \<and> parse (Suc (Suc (Suc (Suc 0)))) ''d-2:abe'' = Ok (BDict [(''abe'', BString ''ab'')]) 7"
  using accept_leading_zero[of 0] accept_negative_zero[of 0] accept_negative_length[of 0]
    accept_trailing_text[of 0]
  by simp

text \<open>
  C1. For every value whose dictionaries, at every nesting level, have distinct keys
  in ascending byte order (the invariant of \<open>std::map\<close>), decoding the encoder's
  output returns the value, having consumed all of the text. The bound on the
  length is the one every \<open>std::string\<close> meets; any fuel from the length of the text
  on suffices.
\<close>

theorem decode_encode_roundtrip:
  "sorted_keys v \<Longrightarrow> length (encode v) < 9223372036854775808 \<Longrightarrow> length (encode v) \<le> fuel \<Longrightarrow>
   parse fuel (encode v) = Ok v (length (encode v))"
  using parseValue_bencoding[of v fuel "[]" "[]"]
  by (simp add: parse_def encode_sorted_keys stored_sorted_keys)

text \<open>
  C2. A well-formed input is the text \<open>bencoding t\<close> of a syntax tree. When the keys
  of its dictionaries are in strictly ascending byte order at every level, decoding
  succeeds and encoding the decoded value gives the input back, byte for byte.
\<close>

theorem encode_decode_roundtrip:
  "sorted_keys t \<Longrightarrow> length (bencoding t) < 9223372036854775808 \<Longrightarrow>
   length (bencoding t) \<le> fuel \<Longrightarrow>
   \<exists>v. parse fuel (bencoding t) = Ok v (length (bencoding t)) \<and> encode v = bencoding t"
  using parseValue_bencoding[of t fuel "[]" "[]"]
  by (simp add: parse_def encode_sorted_keys stored_sorted_keys)

text \<open>
  C10. For every well-formed dictionary text, whatever the order of its keys and
  however often a key is repeated, decoding succeeds; the decoded dictionary has
  each key once, and maps it to the (decoded) value of the key's last occurrence in
  the input: \<open>map_of\<close> on the reversed entry list finds the last occurrence first.
\<close>

theorem decode_repeated_key_last_wins:
  assumes "length (bencoding (BDict entries)) < 9223372036854775808"
    and "length (bencoding (BDict entries)) \<le> fuel"
  shows "\<exists>m. parse fuel (bencoding (BDict entries)) = Ok (BDict m) (length (bencoding (BDict entries)))
           \<and> sorted_wrt (<) (map fst m)
           \<and> (\<forall>k. map_of m k = map_of (rev (map (\<lambda>(k, v). (k, stored v)) entries)) k)"
proof -
  have "sorted_wrt (<) (map fst (fold (\<lambda>(k, v) m. map_assign k (stored v) m) entries []))"
    by (rule fold_map_assign_sorted_result) simp
  moreover have "map_of (fold (\<lambda>(k, v) m. map_assign k (stored v) m) entries []) k
      = map_of (rev (map (\<lambda>(k, v). (k, stored v)) entries)) k" for k
    by (simp add: map_of_fold_map_assign)
  ultimately show ?thesis
    using parseValue_bencoding[of "BDict entries" fuel "[]" "[]"] assms
    by (simp add: parse_def)
qed

lemma example_value_facts:
  "sorted_keys example_value" "encode example_value = ''d1:ai-2e1:bli3e3:xyze1:cdee''"
  by code_simp+

theorem decode_encode_roundtrip_witness:
  "sorted_keys example_value
   \<and> encode example_value = ''d1:ai-2e1:bli3e3:xyze1:cdee''
   \<and> parse 27 ''d1:ai-2e1:bli3e3:xyze1:cdee'' = Ok example_value 27"
proof -
  have h: "length (encode example_value) < 9223372036854775808" "length (encode example_value) \<le> 27"
    by (simp_all add: example_value_facts)
  show ?thesis
    using decode_encode_roundtrip[OF example_value_facts(1) h] by (simp add: example_value_facts)
qed

lemma example_value_bencoding:
  "bencoding example_value = ''d1:ai-2e1:bli3e3:xyze1:cdee''"
  "length (bencoding example_value) = 27"
  by code_simp+

theorem encode_decode_roundtrip_witness:
  "sorted_keys example_value
   \<and> bencoding example_value = ''d1:ai-2e1:bli3e3:xyze1:cdee''
   \<and> (\<exists>v. parse 27 ''d1:ai-2e1:bli3e3:xyze1:cdee'' = Ok v 27
          \<and> encode v = ''d1:ai-2e1:bli3e3:xyze1:cdee'')"
proof -
  have h: "length (bencoding example_value) < 9223372036854775808"
    "length (bencoding example_value) \<le> 27"
    unfolding example_value_bencoding(2) by simp_all
  from encode_decode_roundtrip[OF example_value_facts(1) h] obtain v where
    v: "parse 27 (bencoding example_value) = Ok v (length (bencoding example_value))"
    and e: "encode v = bencoding example_value"
    by blast
  have "parse 27 (bencoding example_value) = Ok v 27"
    using v unfolding example_value_bencoding(2) .
  then have "parse 27 ''d1:ai-2e1:bli3e3:xyze1:cdee'' = Ok v 27"
    unfolding example_value_bencoding(1) .
  moreover have "encode v = ''d1:ai-2e1:bli3e3:xyze1:cdee''"
    using e unfolding example_value_bencoding(1) .
  ultimately show ?thesis
    using example_value_facts(1) example_value_bencoding(1) by blast
qed

lemma example_repeated_facts:
  "bencoding example_repeated = ''d1:bi1e1:ai2e1:bli3eee''"
  "length (bencoding example_repeated) = 22"
  "map_of (rev (map (\<lambda>(k, v). (k, stored v)) [(''b'', BInt 1), (''a'', BInt 2), (''b'', BList [BInt 3])])) ''b''
     = Some (BList [BInt 3])"
  "map_of (rev (map (\<lambda>(k, v). (k, stored v)) [(''b'', BInt 1), (''a'', BInt 2), (''b'', BList [BInt 3])])) ''a''
     = Some (BInt 2)"
  by code_simp+

theorem decode_repeated_key_last_wins_witness:
  "bencoding example_repeated = ''d1:bi1e1:ai2e1:bli3eee''
   \<and> (\<exists>m. parse 22 ''d1:bi1e1:ai2e1:bli3eee'' = Ok (BDict m) 22
          \<and> map_of m ''b'' = Some (BList [BInt 3]) \<and> map_of m ''a'' = Some (BInt 2))"
proof -
  have h: "length (bencoding example_repeated) < 9223372036854775808"
    "length (bencoding example_repeated) \<le> 22"
    unfolding example_repeated_facts(2) by simp_all
  from decode_repeated_key_last_wins[of "[(''b'', BInt 1), (''a'', BInt 2), (''b'', BList [BInt 3])]" 22,
      folded example_repeated_def, OF h]
  obtain m where
    m: "parse 22 (bencoding example_repeated) = Ok (BDict m) (length (bencoding example_repeated))"
    and l: "\<forall>k. map_of m k = map_of (rev (map (\<lambda>(k, v). (k, stored v))
              [(''b'', BInt 1), (''a'', BInt 2), (''b'', BList [BInt 3])])) k"
    by blast
  have "parse 22 (bencoding example_repeated) = Ok (BDict m) 22"
    using m unfolding example_repeated_facts(2) .
  then have "parse 22 ''d1:bi1e1:ai2e1:bli3eee'' = Ok (BDict m) 22"
    unfolding example_repeated_facts(1) .
  moreover have "map_of m ''b'' = Some (BList [BInt 3])" "map_of m ''a'' = Some (BInt 2)"
    using l example_repeated_facts(3,4) by simp_all
  ultimately show ?thesis using example_repeated_facts(1) by blast
qed

section \<open>Properties of the query handlers\<close>

lemma htons_bytes_ntohs: "htons_bytes (ntohs (hi, lo)) = [hi, lo]"
proof -
  have "ucast (drop_bit 8 (push_bit 8 (ucast hi :: 16 word) OR ucast lo)) = hi"
    by (rule bit_word_eqI) (auto simp: bit_simps dest: bit_imp_le_length)
  moreover have "ucast (push_bit 8 (ucast hi :: 16 word) OR ucast lo) = lo"
    by (rule bit_word_eqI) (auto simp: bit_simps dest: bit_imp_le_length)
  ultimately show ?thesis by (simp add: htons_bytes_def ntohs_def)
qed

lemma to_string_nat_1: "v < 10 \<Longrightarrow> to_string_nat v = [digit_char v]"
  by (subst to_string_nat.simps) simp

lemma to_string_nat_2:
  "10 \<le> v \<Longrightarrow> v < 100 \<Longrightarrow> to_string_nat v = [digit_char (v div 10), digit_char (v mod 10)]"
  by (subst to_string_nat.simps) (simp add: to_string_nat_1)

lemma to_string_nat_3:
  "100 \<le> v \<Longrightarrow> v < 1000 \<Longrightarrow>
   to_string_nat v = [digit_char (v div 100), digit_char (v div 10 mod 10), digit_char (v mod 10)]"
  by (subst to_string_nat.simps) (simp add: to_string_nat_2 div_mult2_eq[symmetric])

lemma inet_pton4_octet:
  assumes "v < 256" and "n < 4"
  shows "inet_pton4 (to_string_nat v @ rest) False n done 0 = inet_pton4 rest True (Suc n) done v"
proof -
  consider "v < 10" | "10 \<le> v" "v < 100" | "100 \<le> v" "v < 1000"
    using assms(1) by linarith
  then show ?thesis
  proof cases
    case 1
    then show ?thesis
      using assms by (simp add: to_string_nat_1 isdigit_digit_char digit_value_digit_char)
  next
    case 2
    then have d: "v div 10 < 10" "v mod 10 < 10" "0 < v div 10" "v div 10 * 10 + v mod 10 = v"
      "v div 10 \<le> 255"
      by auto
    show ?thesis
      using assms d 2 by (simp add: to_string_nat_2 isdigit_digit_char digit_value_digit_char)
  next
    case 3
    then have d: "v div 100 < 10" "v div 10 mod 10 < 10" "v mod 10 < 10" "0 < v div 100"
      "v div 100 * 10 + v div 10 mod 10 = v div 10" "v div 10 * 10 + v mod 10 = v"
      "0 < v div 10" "v div 10 \<le> 255"
      using assms(1) by (auto simp: div_mult2_eq[of v 10 10, simplified])
    show ?thesis
      using assms d 3 by (simp add: to_string_nat_3 isdigit_digit_char digit_value_digit_char)
  qed
qed

lemma inet_pton4_dot:
  "n < 4 \<Longrightarrow> inet_pton4 (CHR ''.'' # rest) True n done v = inet_pton4 rest False n (done @ [v]) 0"
  by (simp add: isdigit_def)

lemma inet_pton_inet_ntoa: "inet_pton (inet_ntoa (a, b, c, d)) = Some [a, b, c, d]"
proof -
  have u: "unat a < 256" "unat b < 256" "unat c < 256" "unat d < 256"
    using unsigned_less[of a, where ?'a = nat] unsigned_less[of b, where ?'a = nat]
      unsigned_less[of c, where ?'a = nat] unsigned_less[of d, where ?'a = nat]
    by simp_all
  define r3 where "r3 = CHR ''.'' # to_string_nat (unat d)"
  define r2 where "r2 = CHR ''.'' # to_string_nat (unat c) @ r3"
  define r1 where "r1 = CHR ''.'' # to_string_nat (unat b) @ r2"
  have "inet_pton (inet_ntoa (a, b, c, d)) = inet_pton4 (to_string_nat (unat a) @ r1) False 0 [] 0"
    by (simp add: inet_pton_def inet_ntoa_def r1_def r2_def r3_def)
  also have "\<dots> = inet_pton4 r1 True (Suc 0) [] (unat a)"
    by (rule inet_pton4_octet[OF u(1)]) simp
  also have "\<dots> = inet_pton4 (to_string_nat (unat b) @ r2) False (Suc 0) [unat a] 0"
    unfolding r1_def using inet_pton4_dot[of "Suc 0" _ "[]" "unat a"] by simp
  also have "\<dots> = inet_pton4 r2 True (Suc (Suc 0)) [unat a] (unat b)"
    by (rule inet_pton4_octet[OF u(2)]) simp
  also have "\<dots> = inet_pton4 (to_string_nat (unat c) @ r3) False (Suc (Suc 0)) [unat a, unat b] 0"
    unfolding r2_def using inet_pton4_dot[of "Suc (Suc 0)" _ "[unat a]" "unat b"] by simp
  also have "\<dots> = inet_pton4 r3 True (Suc (Suc (Suc 0))) [unat a, unat b] (unat c)"
    by (rule inet_pton4_octet[OF u(3)]) simp
  also have "\<dots> = inet_pton4 (to_string_nat (unat d) @ []) False (Suc (Suc (Suc 0)))
                        [unat a, unat b, unat c] 0"
    unfolding r3_def using inet_pton4_dot[of "Suc (Suc (Suc 0))" _ "[unat a, unat b]" "unat c"]
    by simp
  also have "\<dots> = inet_pton4 [] True (Suc (Suc (Suc (Suc 0)))) [unat a, unat b, unat c] (unat d)"
    by (rule inet_pton4_octet[OF u(4)]) simp
  also have "\<dots> = Some [a, b, c, d]"
    by simp
  finally show ?thesis .
qed

lemma encode_peers_append:
  "encode_peers ps = Inr s \<Longrightarrow> encode_peers [p] = Inr t \<Longrightarrow> encode_peers (ps @ [p]) = Inr (s @ t)"
  by (induction ps arbitrary: s) (auto split: option.splits sum.splits)

lemma encode_peers_ok:
  "\<forall>p \<in> set ps. inet_pton (ip p) \<noteq> None \<Longrightarrow> \<exists>s. encode_peers ps = Inr s"
  by (induction ps) auto

lemma string_order_examples:
  "''r'' < ''t''" "''t'' < ''y''" "''r'' < ''y''" "''id'' < ''values''" "''id'' < ''nodes''"
  by (simp_all add: less_char_def)

lemma make_response_eq:
  "make_response t [(''id'', x)] = BDict [(''r'', BDict [(''id'', x)]), (''t'', BString t), (''y'', BString ''r'')]"
  "make_response t [(''id'', x), (''values'', v)]
     = BDict [(''r'', BDict [(''id'', x), (''values'', v)]), (''t'', BString t), (''y'', BString ''r'')]"
  by (simp_all add: make_response_def map_from_range_def less_char_def)

lemma map_of_store_push:
  "map_of (store_push h p store) h
     = Some ((case map_of store h of None \<Rightarrow> [] | Some peers \<Rightarrow> peers) @ [p])"
  by (simp add: store_push_def map_of_map_assign)

lemma store_ok_peers:
  "store_ok store \<Longrightarrow> map_of store h = Some peers \<Longrightarrow> \<forall>p \<in> set peers. inet_pton (ip p) \<noteq> None"
  by (auto simp: store_ok_def dest!: map_of_SomeD)

lemma set_map_assign_subset: "set (map_assign k v m) \<subseteq> insert (k, v) (set m)"
proof (induction m)
  case Nil
  then show ?case by simp
next
  case (Cons e m)
  obtain k' v' where e: "e = (k', v')" by (cases e)
  show ?case using Cons by (cases "k < k'"; cases "k = k'"; auto simp: e)
qed

lemma store_ok_iff:
  "store_ok store \<longleftrightarrow>
     (\<forall>k peers q. (k, peers) \<in> set store \<longrightarrow> q \<in> set peers \<longrightarrow> inet_pton (ip q) \<noteq> None)"
  unfolding store_ok_def by fast

lemma store_push_ok:
  assumes "store_ok store" and "inet_pton (ip p) \<noteq> None"
  shows "store_ok (store_push h p store)"
proof -
  define old where "old = (case map_of store h of None \<Rightarrow> [] | Some peers \<Rightarrow> peers)"
  have old: "inet_pton (ip q) \<noteq> None" if "q \<in> set old" for q
  proof (cases "map_of store h")
    case None
    then show ?thesis using that by (simp add: old_def)
  next
    case (Some peers)
    then show ?thesis using store_ok_peers[OF assms(1) Some] that by (simp add: old_def)
  qed
  have "inet_pton (ip q) \<noteq> None"
    if in_set: "(k, peers) \<in> set (map_assign h (old @ [p]) store)" and q: "q \<in> set peers"
    for k peers q
  proof -
    from in_set set_map_assign_subset[of h "old @ [p]" store]
    consider "peers = old @ [p]" | "(k, peers) \<in> set store"
      by blast
    then show ?thesis
    proof cases
      case 1
      then have "q \<in> set old \<or> q = p" using q by auto
      then show ?thesis using old assms(2) by blast
    next
      case 2
      then show ?thesis using assms(1) q unfolding store_ok_iff by blast
    qed
  qed
  then show ?thesis
    unfolding store_ok_iff store_push_def old_def by blast
qed

lemma handle_ping_state: "handle_ping st m = Inr (st', r) \<Longrightarrow> st' = st"
  by (auto simp: handle_ping_def split: sum.splits)

lemma nodes_response_state: "nodes_response st t target = Inr (st', r) \<Longrightarrow> st' = st"
  by (auto simp: nodes_response_def split: sum.splits)

lemma handle_find_node_state: "handle_find_node st m = Inr (st', r) \<Longrightarrow> st' = st"
  by (auto simp: handle_find_node_def split: sum.splits dest: nodes_response_state)

lemma handle_get_peers_state: "handle_get_peers st m = Inr (st', r) \<Longrightarrow> st' = st"
  by (auto simp: handle_get_peers_def split: sum.splits option.splits dest: nodes_response_state)

lemma handle_announce_peer_state:
  "handle_announce_peer st m sender stack_id = Inr (st', r) \<Longrightarrow>
   st' = st \<or> (\<exists>h. st' = st\<lparr>s_peer_store :=
      store_push h \<lparr>node_id = stack_id, ip = inet_ntoa (sin_addr sender),
                      port = ntohs (sin_port sender)\<rparr> (s_peer_store st)\<rparr>)"
  by (auto simp: handle_announce_peer_def Let_def split: sum.splits)

lemma dispatch_state:
  "dispatch st m sender stack_id = Inr (st', r) \<Longrightarrow>
   st' = st \<or> (\<exists>h. st' = st\<lparr>s_peer_store :=
      store_push h \<lparr>node_id = stack_id, ip = inet_ntoa (sin_addr sender),
                      port = ntohs (sin_port sender)\<rparr> (s_peer_store st)\<rparr>)"
  unfolding dispatch_def
  by (auto split: sum.splits if_splits
        dest: handle_ping_state handle_find_node_state handle_get_peers_state
        dest!: handle_announce_peer_state)

lemma dispatch_store_ok:
  assumes "dispatch st message sender stack_id = Inr (st', reply)"
    and "store_ok (s_peer_store st)"
  shows "store_ok (s_peer_store st')"
proof -
  obtain a1 a2 a3 a4 where addr: "sin_addr sender = (a1, a2, a3, a4)"
    by (cases "sin_addr sender") auto
  have p: "inet_pton (ip \<lparr>node_id = stack_id, ip = inet_ntoa (sin_addr sender),
                           port = ntohs (sin_port sender)\<rparr>) \<noteq> None"
    by (simp add: addr inet_pton_inet_ntoa)
  show ?thesis
    using dispatch_state[OF assms(1)] assms(2) store_push_ok[OF assms(2) p] by auto
qed

lemma map_of_store_push_other:
  "h' \<noteq> h \<Longrightarrow> map_of (store_push h p store) h' = map_of store h'"
  by (simp add: store_push_def map_of_map_assign)

text \<open>
  C7. Let an \<open>announce_peer\<close> query for the 20-byte infohash \<open>H\<close> arrive from \<open>sender\<close>,
  and then a \<open>get_peers\<close> query for \<open>H\<close> from anywhere, in a state whose stored peers
  all came from announcements (\<open>store_ok\<close>, kept by every dispatch:
  \<open>dispatch_store_ok\<close>). The first dispatch replies \<open>{t, y: "r", r: {id}}\<close> and changes
  the peer store only: every other infohash keeps its list, and the list under \<open>H\<close>
  is the one held before (empty if there was none) with the peer made from the
  datagram's source address and port appended. The second dispatch replies with a
  \<open>values\<close> string that is the compact form of the earlier peers followed by the six
  bytes of the announced address and port in network order.
\<close>

theorem announce_then_get_peers:
  assumes "top_string announce ''y'' = Inr ''q''"
    and "top_string announce ''q'' = Inr ''announce_peer''"
    and "top_string announce ''t'' = Inr ta"
    and "arg_string announce ''info_hash'' = Inr H"
    and "length H = NODE_ID_SIZE"
    and "top_string get ''y'' = Inr ''q''"
    and "top_string get ''q'' = Inr ''get_peers''"
    and "top_string get ''t'' = Inr tg"
    and "arg_string get ''info_hash'' = Inr H"
    and "store_ok (s_peer_store st)"
  shows "\<exists>st1 before.
     dispatch st announce sender stack_id
       = Inr (st1, Some (encode (BDict [(''r'', BDict [(''id'', BString (id_string st))]),
                                        (''t'', BString ta), (''y'', BString ''r'')])))
     \<and> s_my_node_id st1 = s_my_node_id st
     \<and> s_routing_table st1 = s_routing_table st
     \<and> map_of (s_peer_store st1) H
         = Some ((case map_of (s_peer_store st) H of None \<Rightarrow> [] | Some peers \<Rightarrow> peers)
                 @ [\<lparr>node_id = stack_id, ip = inet_ntoa (sin_addr sender),
                      port = ntohs (sin_port sender)\<rparr>])
     \<and> (\<forall>h. h \<noteq> H \<longrightarrow> map_of (s_peer_store st1) h = map_of (s_peer_store st) h)
     \<and> encode_peers (case map_of (s_peer_store st) H of None \<Rightarrow> [] | Some peers \<Rightarrow> peers)
         = Inr before
     \<and> dispatch st1 get sender' stack_id'
       = Inr (st1, Some (encode (BDict
               [(''r'', BDict [(''id'', BString (id_string st)),
                               (''values'', BString (before @ compact_endpoint sender))]),
                (''t'', BString tg), (''y'', BString ''r'')])))"
proof -
  define peer where "peer = \<lparr>node_id = stack_id, ip = inet_ntoa (sin_addr sender),
                              port = ntohs (sin_port sender)\<rparr>"
  define earlier where
    "earlier = (case map_of (s_peer_store st) H of None \<Rightarrow> [] | Some peers \<Rightarrow> peers)"
  define st1 where "st1 = st\<lparr>s_peer_store := store_push H peer (s_peer_store st)\<rparr>"
  obtain a1 a2 a3 a4 where addr: "sin_addr sender = (a1, a2, a3, a4)"
    by (cases "sin_addr sender") auto
  obtain hi lo where prt: "sin_port sender = (hi, lo)" by (cases "sin_port sender") auto
  have ids: "id_string st1 = id_string st" by (simp add: st1_def id_string_def)
  have same: "s_my_node_id st1 = s_my_node_id st" "s_routing_table st1 = s_routing_table st"
    by (simp_all add: st1_def)
  have d1: "dispatch st announce sender stack_id
       = Inr (st1, Some (encode (BDict [(''r'', BDict [(''id'', BString (id_string st))]),
                                        (''t'', BString ta), (''y'', BString ''r'')])))"
    using assms(1-5)
    by (simp add: dispatch_def handle_announce_peer_def string_to_node_id_def Let_def
          peer_def[symmetric] st1_def[symmetric] ids make_response_eq)
  have look: "map_of (s_peer_store st1) H = Some (earlier @ [peer])"
    by (simp add: st1_def map_of_store_push earlier_def)
  have others: "\<forall>h. h \<noteq> H \<longrightarrow> map_of (s_peer_store st1) h = map_of (s_peer_store st) h"
    by (simp add: st1_def map_of_store_push_other)
  have "\<forall>p \<in> set earlier. inet_pton (ip p) \<noteq> None"
  proof (cases "map_of (s_peer_store st) H")
    case None
    then show ?thesis by (simp add: earlier_def)
  next
    case (Some peers)
    then show ?thesis using store_ok_peers[OF assms(10) Some] by (simp add: earlier_def)
  qed
  then obtain before where before: "encode_peers earlier = Inr before"
    using encode_peers_ok by blast
  have one: "encode_peers [peer] = Inr (compact_endpoint sender)"
    by (simp add: peer_def addr prt inet_pton_inet_ntoa htons_bytes_ntohs compact_endpoint_def
          chars_of_bytes_def)
  have enc: "encode_peers (earlier @ [peer]) = Inr (before @ compact_endpoint sender)"
    by (rule encode_peers_append[OF before one])
  have d2: "dispatch st1 get sender' stack_id'
       = Inr (st1, Some (encode (BDict
               [(''r'', BDict [(''id'', BString (id_string st)),
                               (''values'', BString (before @ compact_endpoint sender))]),
                (''t'', BString tg), (''y'', BString ''r'')])))"
    using assms(6-9) look enc
    by (simp add: dispatch_def handle_get_peers_def ids make_response_eq)
  show ?thesis
    using d1 same look others before d2 unfolding peer_def earlier_def by blast
qed

lemma announce_example_fields:
  "top_string (announce_example ''ABCDEFGHIJKLMNOPQRST'') ''y'' = Inr ''q''"
  "top_string (announce_example ''ABCDEFGHIJKLMNOPQRST'') ''q'' = Inr ''announce_peer''"
  "top_string (announce_example ''ABCDEFGHIJKLMNOPQRST'') ''t'' = Inr ''aa''"
  "arg_string (announce_example ''ABCDEFGHIJKLMNOPQRST'') ''info_hash'' = Inr ''ABCDEFGHIJKLMNOPQRST''"
  "length ''ABCDEFGHIJKLMNOPQRST'' = NODE_ID_SIZE"
  "top_string (get_peers_example ''ABCDEFGHIJKLMNOPQRST'') ''y'' = Inr ''q''"
  "top_string (get_peers_example ''ABCDEFGHIJKLMNOPQRST'') ''q'' = Inr ''get_peers''"
  "top_string (get_peers_example ''ABCDEFGHIJKLMNOPQRST'') ''t'' = Inr ''gp''"
  "arg_string (get_peers_example ''ABCDEFGHIJKLMNOPQRST'') ''info_hash'' = Inr ''ABCDEFGHIJKLMNOPQRST''"
  "store_ok (s_peer_store stored_example)"
  by code_simp+

lemma stored_example_facts:
  "map_of (s_peer_store stored_example) ''ABCDEFGHIJKLMNOPQRST''
     = Some [\<lparr>node_id = zero_id, ip = ''1.2.3.4'', port = 5\<rparr>]"
  "map_of (s_peer_store stored_example) ''ZZZZZZZZZZZZZZZZZZZZ''
     = Some [\<lparr>node_id = zero_id, ip = ''10.0.0.7'', port = 6881\<rparr>]"
  "encode_peers [\<lparr>node_id = zero_id, ip = ''1.2.3.4'', port = 5\<rparr>]
     = Inr (chars_of_bytes [1, 2, 3, 4, 0, 5])"
  "''ZZZZZZZZZZZZZZZZZZZZ'' \<noteq> ''ABCDEFGHIJKLMNOPQRST''"
  by code_simp+

theorem announce_then_get_peers_witness:
  "top_string (announce_example ''ABCDEFGHIJKLMNOPQRST'') ''q'' = Inr ''announce_peer''
   \<and> arg_string (announce_example ''ABCDEFGHIJKLMNOPQRST'') ''info_hash'' = Inr ''ABCDEFGHIJKLMNOPQRST''
   \<and> top_string (get_peers_example ''ABCDEFGHIJKLMNOPQRST'') ''q'' = Inr ''get_peers''
   \<and> arg_string (get_peers_example ''ABCDEFGHIJKLMNOPQRST'') ''info_hash'' = Inr ''ABCDEFGHIJKLMNOPQRST''
   \<and> store_ok (s_peer_store stored_example)
   \<and> (\<exists>st1.
        dispatch stored_example (announce_example ''ABCDEFGHIJKLMNOPQRST'') sender_example zero_id
          = Inr (st1, Some (encode (BDict
                  [(''r'', BDict [(''id'', BString (id_string stored_example))]),
                   (''t'', BString ''aa''), (''y'', BString ''r'')])))
        \<and> map_of (s_peer_store st1) ''ABCDEFGHIJKLMNOPQRST''
            = Some [\<lparr>node_id = zero_id, ip = ''1.2.3.4'', port = 5\<rparr>,
                    \<lparr>node_id = zero_id, ip = inet_ntoa (sin_addr sender_example),
                     port = ntohs (sin_port sender_example)\<rparr>]
        \<and> map_of (s_peer_store st1) ''ZZZZZZZZZZZZZZZZZZZZ''
            = Some [\<lparr>node_id = zero_id, ip = ''10.0.0.7'', port = 6881\<rparr>]
        \<and> dispatch st1 (get_peers_example ''ABCDEFGHIJKLMNOPQRST'') sender_example zero_id
          = Inr (st1, Some (encode (BDict
                  [(''r'', BDict [(''id'', BString (id_string stored_example)),
                                  (''values'', BString (chars_of_bytes [1, 2, 3, 4, 0, 5]
                                                        @ compact_endpoint sender_example))]),
                   (''t'', BString ''gp''), (''y'', BString ''r'')]))))"
proof -
  from announce_then_get_peers[OF announce_example_fields,
      of sender_example zero_id sender_example zero_id]
  obtain st1 before where
    d1: "dispatch stored_example (announce_example ''ABCDEFGHIJKLMNOPQRST'') sender_example zero_id
          = Inr (st1, Some (encode (BDict
                  [(''r'', BDict [(''id'', BString (id_string stored_example))]),
                   (''t'', BString ''aa''), (''y'', BString ''r'')])))"
    and look: "map_of (s_peer_store st1) ''ABCDEFGHIJKLMNOPQRST''
         = Some ((case map_of (s_peer_store stored_example) ''ABCDEFGHIJKLMNOPQRST'' of
                    None \<Rightarrow> [] | Some peers \<Rightarrow> peers)
                 @ [\<lparr>node_id = zero_id, ip = inet_ntoa (sin_addr sender_example),
                      port = ntohs (sin_port sender_example)\<rparr>])"
    and others: "\<forall>h. h \<noteq> ''ABCDEFGHIJKLMNOPQRST''
         \<longrightarrow> map_of (s_peer_store st1) h = map_of (s_peer_store stored_example) h"
    and before: "encode_peers (case map_of (s_peer_store stored_example) ''ABCDEFGHIJKLMNOPQRST'' of
                    None \<Rightarrow> [] | Some peers \<Rightarrow> peers) = Inr before"
    and d2: "dispatch st1 (get_peers_example ''ABCDEFGHIJKLMNOPQRST'') sender_example zero_id
          = Inr (st1, Some (encode (BDict
                  [(''r'', BDict [(''id'', BString (id_string stored_example)),
                                  (''values'', BString (before @ compact_endpoint sender_example))]),
                   (''t'', BString ''gp''), (''y'', BString ''r'')])))"
    by blast
  have b: "before = chars_of_bytes [1, 2, 3, 4, 0, 5]"
    using before unfolding stored_example_facts(1) option.case stored_example_facts(3) by simp
  have l1: "map_of (s_peer_store st1) ''ABCDEFGHIJKLMNOPQRST''
            = Some [\<lparr>node_id = zero_id, ip = ''1.2.3.4'', port = 5\<rparr>,
                    \<lparr>node_id = zero_id, ip = inet_ntoa (sin_addr sender_example),
                     port = ntohs (sin_port sender_example)\<rparr>]"
    using look unfolding stored_example_facts(1) option.case by simp
  have l2: "map_of (s_peer_store st1) ''ZZZZZZZZZZZZZZZZZZZZ''
            = Some [\<lparr>node_id = zero_id, ip = ''10.0.0.7'', port = 6881\<rparr>]"
    using others stored_example_facts(4) stored_example_facts(2) by metis
  show ?thesis
    using d1 l1 l2 d2[unfolded b] announce_example_fields by blast
qed

subsection \<open>Keys of the peer store\<close>

lemma short_announce_datagram:
  "sorted_keys (announce_example ''abc'')"
  "bencoding (announce_example ''abc'')
     = ''d1:ad2:id20:abcdefghij01234567899:info_hash3:abce1:q13:announce_peer1:t2:aa1:y1:qe''"
  "length (bencoding (announce_example ''abc'')) = 82"
  by code_simp+

lemma short_announce_parses:
  "parse 82 ''d1:ad2:id20:abcdefghij01234567899:info_hash3:abce1:q13:announce_peer1:t2:aa1:y1:qe''
     = Ok (announce_example ''abc'') 82"
proof -
  have "parseValue 82 ([] @ bencoding (announce_example ''abc'') @ []) (length ([] :: string))
          = Ok (stored (announce_example ''abc''))
               (length ([] :: string) + length (bencoding (announce_example ''abc'')))"
    by (rule parseValue_bencoding) (simp_all add: short_announce_datagram(3))
  then have "parse 82 (bencoding (announce_example ''abc''))
          = Ok (announce_example ''abc'') (length (bencoding (announce_example ''abc'')))"
    by (simp add: parse_def stored_sorted_keys[OF short_announce_datagram(1)])
  then have "parse 82 (bencoding (announce_example ''abc'')) = Ok (announce_example ''abc'') 82"
    unfolding short_announce_datagram(3) .
  then show ?thesis unfolding short_announce_datagram(2) .
qed

text \<open>
  C9. The datagram below is a well-formed \<open>announce_peer\<close> query whose \<open>info_hash\<close> has
  three bytes. Dispatching it on a fresh engine sends no reply
  (\<open>string_to_node_id\<close> throws), but the peer was stored first: the peer store now has
  the 3-byte key \<open>abc\<close>.
\<close>

theorem announce_stores_short_key:
  "parse 82 ''d1:ad2:id20:abcdefghij01234567899:info_hash3:abce1:q13:announce_peer1:t2:aa1:y1:qe''
     = Ok (announce_example ''abc'') 82
   \<and> dispatch (initial_state zero_id) (announce_example ''abc'') sender_example zero_id
     = Inr (\<lparr>s_my_node_id = zero_id, s_routing_table = [[]],
             s_peer_store = [(''abc'', [\<lparr>node_id = zero_id, ip = ''9.9.9.9'', port = 1234\<rparr>])]\<rparr>,
            None)
   \<and> length ''abc'' \<noteq> NODE_ID_SIZE"
proof -
  have "dispatch (initial_state zero_id) (announce_example ''abc'') sender_example zero_id
     = Inr (\<lparr>s_my_node_id = zero_id, s_routing_table = [[]],
             s_peer_store = [(''abc'', [\<lparr>node_id = zero_id, ip = ''9.9.9.9'', port = 1234\<rparr>])]\<rparr>,
            None)"
    by code_simp
  moreover have "length ''abc'' \<noteq> NODE_ID_SIZE" by (simp add: NODE_ID_SIZE_def)
  ultimately show ?thesis using short_announce_parses by blast
qed

end
